theory Spec2Isabelle
  imports Main
begin

unbundle bit_operations_syntax

section \<open>Maximum flow: the data model of \<^verbatim>\<open>network_flow/max_flow.py\<close>\<close>

text \<open>
  The class \<^verbatim>\<open>MaximumFlow\<close> keeps a residual graph in an edge list of triples
  \<^verbatim>\<open>[v, capacity, flow]\<close>, stored in pairs \<open>(i, i XOR 1)\<close>, and per-vertex
  lists of edge indices. Vertices and edge indices are Python integers (\<open>int\<close>).
  Capacities and flows are \<^verbatim>\<open>Number\<close>s, integers or floats: the code uses their
  \<^verbatim>\<open>0\<close>, \<^verbatim>\<open>+\<close>, \<^verbatim>\<open>-\<close> and comparisons only, so the model is written once, over
  any type \<open>'n\<close> with these operations, and read at \<open>int\<close> for Python's integers and
  at \<open>dbl\<close> (below) for its floats. The default bound \<^verbatim>\<open>INF = float('inf')\<close> of the
  two augmenting procedures is kept apart from the finite numbers: a \<^verbatim>\<open>Number\<close> that
  may be that bound is a \<open>number\<close>. Capacities are finite numbers.

  An exception leaves the object as it is at the \<^verbatim>\<open>raise\<close>: every operation returns
  its outcome (\<open>Inl\<close> the exception) together with the instance.
\<close>

datatype error = IndexError | RecursionError | RerunError

datatype 'n number = Fin 'n | Infty

type_synonym 'n edge = "int \<times> 'n \<times> 'n"

record 'n MaximumFlow =
  vertices :: int
  edge_list :: "'n edge list"
  adjacency_list :: "int list list"
  distances :: "int list"
  last_arc :: "int list"
  points :: "(int \<times> int) list"
  has_been_run :: bool
  trace :: "'n edge list list"

text \<open>
  \<open>last_arc\<close> is the field \<^verbatim>\<open>last\<close>. \<open>trace\<close> is a history variable and not a
  field of the class: it records the edge list after every paired flow update
  (\<^verbatim>\<open>edge_list[idx][2] = flow; edge_list[idx ^ 1][2] -= pushed\<close>), newest first. No
  operation reads it.
\<close>

type_synonym ('a, 'n) result = "(error + 'a) \<times> 'n MaximumFlow"

subsection \<open>Python list indexing\<close>

text \<open>An index \<open>i\<close> with \<open>-len \<le> i < 0\<close> counts from the end; any other index out
  of \<open>[0, len)\<close> raises \<^verbatim>\<open>IndexError\<close> (\<open>None\<close> here).\<close>

definition py_pos :: "nat \<Rightarrow> int \<Rightarrow> nat option" where
  "py_pos n i =
     (if 0 \<le> i \<and> i < int n then Some (nat i)
      else if - int n \<le> i \<and> i < 0 then Some (nat (int n + i))
      else None)"

definition py_get :: "'a list \<Rightarrow> int \<Rightarrow> 'a option" where
  "py_get xs i = map_option (\<lambda>k. xs ! k) (py_pos (length xs) i)"

definition py_update :: "'a list \<Rightarrow> int \<Rightarrow> ('a \<Rightarrow> 'a) \<Rightarrow> 'a list option" where
  "py_update xs i f = map_option (\<lambda>k. xs[k := f (xs ! k)]) (py_pos (length xs) i)"

definition py_set :: "'a list \<Rightarrow> int \<Rightarrow> 'a \<Rightarrow> 'a list option" where
  "py_set xs i v = py_update xs i (\<lambda>_. v)"

subsection \<open>Numbers\<close>

text \<open>\<^verbatim>\<open>min(f, cap - flow)\<close> with a finite second argument is finite, and it is the
  first argument unless the second is smaller; \<^verbatim>\<open>mf += f\<close> stays infinite once it is.\<close>

fun py_min :: "'n::ord number \<Rightarrow> 'n \<Rightarrow> 'n" where
  "py_min Infty r = r"
| "py_min (Fin x) r = min x r"

fun nplus :: "'n::plus number \<Rightarrow> 'n number \<Rightarrow> 'n number" where
  "nplus (Fin a) (Fin b) = Fin (a + b)"
| "nplus _ _ = Infty"

fun fin_result :: "('n, 'n) result \<Rightarrow> ('n number, 'n) result" where
  "fin_result (Inl e, st) = (Inl e, st)"
| "fin_result (Inr x, st) = (Inr (Fin x), st)"

subsection \<open>Floats\<close>

text \<open>
  A Python float is an IEEE 754 binary64 number. A finite one is \<open>m * 2 ^ e\<close> for
  integers \<open>m\<close> and \<open>e\<close> with \<open>\<bar>m\<bar> < 2 ^ 53\<close>. \<open>Dbl m e\<close> stands for it, with
  \<open>2 ^ 52 \<le> \<bar>m\<bar>\<close>, or \<open>Dbl 0 0\<close> for zero, so that equal numbers are equal terms. The
  result of \<^verbatim>\<open>+\<close> and \<^verbatim>\<open>-\<close> is the exact result rounded to the nearest float, to the
  one with the even \<open>m\<close> when two are equally near; comparisons are exact. Exact results
  are \<open>dyadic\<close> numbers \<open>m * 2 ^ e\<close> with no bound on \<open>m\<close>.

  The exponent is not bounded here: overflow to \<^verbatim>\<open>inf\<close> and the subnormal numbers are left
  out, and so is the sign of zero, which no comparison sees. The integers \<^verbatim>\<open>0\<close> that
  \<^verbatim>\<open>add_edge\<close> stores as initial flows and as reverse capacities, and the initial
  \<^verbatim>\<open>mf = 0\<close>, are the float zero in a run on float capacities, as they are once Python
  has converted them in a mixed operation.
\<close>

datatype dyadic = Dyadic int int

fun dy_plus :: "dyadic \<Rightarrow> dyadic \<Rightarrow> dyadic" where
  "dy_plus (Dyadic m1 e1) (Dyadic m2 e2) =
     (let e = min e1 e2 in Dyadic (m1 * 2 ^ nat (e1 - e) + m2 * 2 ^ nat (e2 - e)) e)"

fun dy_minus :: "dyadic \<Rightarrow> dyadic \<Rightarrow> dyadic" where
  "dy_minus (Dyadic m1 e1) (Dyadic m2 e2) =
     (let e = min e1 e2 in Dyadic (m1 * 2 ^ nat (e1 - e) - m2 * 2 ^ nat (e2 - e)) e)"

fun dy_sign :: "dyadic \<Rightarrow> int" where
  "dy_sign (Dyadic m e) = sgn m"

text \<open>\<^verbatim>\<open>int.bit_length\<close> of a non-negative integer.\<close>

function bit_length :: "int \<Rightarrow> nat" where
  "bit_length n = (if n \<le> 0 then 0 else Suc (bit_length (n div 2)))"
  by pat_completeness auto

termination
  by (relation "measure nat") auto

declare bit_length.simps [simp del]

datatype dbl = Dbl int int

text \<open>Rounding to nearest, ties to even: a mantissa of more than 53 bits loses its low
  \<open>d\<close> bits, and the rest goes one up when the lost part is more than half of \<open>2 ^ d\<close>,
  or is half of it and the rest is odd.\<close>

fun nearest :: "dyadic \<Rightarrow> dbl" where
  "nearest (Dyadic m e) =
     (if m = 0 then Dbl 0 0
      else
        let b = bit_length \<bar>m\<bar> in
        if b \<le> 53 then Dbl (m * 2 ^ (53 - b)) (e - int (53 - b))
        else
          let d = b - 53;
              q = \<bar>m\<bar> div 2 ^ d;
              r = \<bar>m\<bar> mod 2 ^ d;
              h = 2 ^ (d - 1);
              q1 = (if r < h \<or> (r = h \<and> even q) then q else q + 1)
          in if q1 = 2 ^ 53 then Dbl (sgn m * 2 ^ 52) (e + int d + 1)
             else Dbl (sgn m * q1) (e + int d))"

fun exact :: "dbl \<Rightarrow> dyadic" where
  "exact (Dbl m e) = Dyadic m e"

instantiation dbl :: "{zero, plus, minus, ord}"
begin

definition zero_dbl :: dbl where
  "zero_dbl = Dbl 0 0"

definition plus_dbl :: "dbl \<Rightarrow> dbl \<Rightarrow> dbl" where
  "plus_dbl x y = nearest (dy_plus (exact x) (exact y))"

definition minus_dbl :: "dbl \<Rightarrow> dbl \<Rightarrow> dbl" where
  "minus_dbl x y = nearest (dy_minus (exact x) (exact y))"

definition less_eq_dbl :: "dbl \<Rightarrow> dbl \<Rightarrow> bool" where
  "less_eq_dbl x y \<longleftrightarrow> dy_sign (dy_minus (exact x) (exact y)) \<le> 0"

definition less_dbl :: "dbl \<Rightarrow> dbl \<Rightarrow> bool" where
  "less_dbl x y \<longleftrightarrow> dy_sign (dy_minus (exact x) (exact y)) < 0"

instance ..

end

text \<open>The float that a literal or a conversion gives for the fraction \<open>p / q\<close>, \<open>0 < q\<close>:
  the nearest one. The quotient is taken to at least 55 bits, with one more bit that
  says whether anything was left over.\<close>

definition float_of_ratio :: "int \<Rightarrow> int \<Rightarrow> dbl" where
  "float_of_ratio p q =
     (let s = 55 + int (bit_length q) - int (bit_length \<bar>p\<bar>);
          n = (if 0 \<le> s then \<bar>p\<bar> * 2 ^ nat s else \<bar>p\<bar>);
          d = (if 0 \<le> s then q else q * 2 ^ nat (- s))
      in nearest (Dyadic (sgn p * (2 * (n div d) + (if n mod d = 0 then 0 else 1))) (- s - 1)))"

text \<open>\<^verbatim>\<open>sum(xs)\<close> as Python computes it on floats, and the sum of the same numbers without
  rounding.\<close>

definition float_sum :: "dbl list \<Rightarrow> dbl" where
  "float_sum xs = foldl (+) 0 xs"

definition exact_sum :: "dbl list \<Rightarrow> dyadic" where
  "exact_sum xs = foldl dy_plus (Dyadic 0 0) (map exact xs)"

definition same_value :: "dyadic \<Rightarrow> dyadic \<Rightarrow> bool" where
  "same_value a b \<longleftrightarrow> dy_sign (dy_minus a b) = 0"

section \<open>The residual graph store\<close>

definition init :: "int \<Rightarrow> 'n MaximumFlow" where
  "init V =
     \<lparr>vertices = V, edge_list = [], adjacency_list = replicate (nat V) [],
      distances = [], last_arc = [], points = [], has_been_run = False, trace = []\<rparr>"

definition add_edge :: "int \<Rightarrow> int \<Rightarrow> 'n::zero \<Rightarrow> bool \<Rightarrow> 'n MaximumFlow \<Rightarrow> (unit, 'n) result" where
  "add_edge u v capacity directed st =
     (if u = v then (Inr (), st)
      else
        let st1 = st\<lparr>edge_list := edge_list st @ [(v, capacity, 0)]\<rparr> in
        (case py_update (adjacency_list st1) u
                (\<lambda>l. l @ [int (length (edge_list st1)) - 1]) of
           None \<Rightarrow> (Inl IndexError, st1)
         | Some al1 \<Rightarrow>
             let st2 = st1\<lparr>adjacency_list := al1\<rparr>;
                 st3 = st2\<lparr>edge_list :=
                         edge_list st2 @ [(u, if directed then 0 else capacity, 0)]\<rparr> in
             (case py_update (adjacency_list st3) v
                     (\<lambda>l. l @ [int (length (edge_list st3)) - 1]) of
                None \<Rightarrow> (Inl IndexError, st3)
              | Some al2 \<Rightarrow> (Inr (), st3\<lparr>adjacency_list := al2\<rparr>))))"

text \<open>A graph is built by a sequence of \<^verbatim>\<open>add_edge\<close> calls on a new instance; the
  first exception ends the sequence.\<close>

type_synonym 'n edge_spec = "int \<times> int \<times> 'n \<times> bool"

fun add_edges :: "'n::zero edge_spec list \<Rightarrow> 'n MaximumFlow \<Rightarrow> (unit, 'n) result" where
  "add_edges [] st = (Inr (), st)"
| "add_edges ((u, v, capacity, directed) # es) st =
     (case add_edge u v capacity directed st of
        (Inl e, st1) \<Rightarrow> (Inl e, st1)
      | (Inr _, st1) \<Rightarrow> add_edges es st1)"

definition build :: "int \<Rightarrow> 'n::zero edge_spec list \<Rightarrow> (unit, 'n) result" where
  "build V es = add_edges es (init V)"

definition copy :: "'n MaximumFlow \<Rightarrow> 'n MaximumFlow" where
  "copy st = st"

section \<open>The level builder\<close>

fun BFS_for ::
  "int \<Rightarrow> int list \<Rightarrow> int list \<Rightarrow> 'n::{zero,plus,minus,ord} MaximumFlow \<Rightarrow>
     (int list, 'n) result" where
  "BFS_for u [] q st = (Inr q, st)"
| "BFS_for u (idx # rest) q st =
     (case py_get (edge_list st) idx of
        None \<Rightarrow> (Inl IndexError, st)
      | Some (v, cap, flow) \<Rightarrow>
          if cap - flow > 0 then
            (case py_get (distances st) v of
               None \<Rightarrow> (Inl IndexError, st)
             | Some dv \<Rightarrow>
                 if dv = - 1 then
                   (case py_get (distances st) u of
                      None \<Rightarrow> (Inl IndexError, st)
                    | Some du \<Rightarrow>
                        (case py_set (distances st) v (du + 1) of
                           None \<Rightarrow> (Inl IndexError, st)
                         | Some ds \<Rightarrow>
                             (case py_set (points st) v (u, idx) of
                                None \<Rightarrow> (Inl IndexError, st\<lparr>distances := ds\<rparr>)
                              | Some ps \<Rightarrow>
                                  BFS_for u rest (q @ [v])
                                    (st\<lparr>distances := ds, points := ps\<rparr>))))
                 else BFS_for u rest q st)
          else BFS_for u rest q st)"

partial_function (option) BFS_while ::
  "int \<Rightarrow> int list \<Rightarrow> 'n::{zero,plus,minus,ord} MaximumFlow \<Rightarrow> ((unit, 'n) result) option" where
  "BFS_while t q st =
     (case q of
        [] \<Rightarrow> Some (Inr (), st)
      | u # q1 \<Rightarrow>
          if u = t then Some (Inr (), st)
          else
            (case py_get (adjacency_list st) u of
               None \<Rightarrow> Some (Inl IndexError, st)
             | Some adj \<Rightarrow>
                 (case BFS_for u adj q1 st of
                    (Inl e, st1) \<Rightarrow> Some (Inl e, st1)
                  | (Inr q2, st1) \<Rightarrow> BFS_while t q2 st1)))"

declare BFS_while.simps [code]

definition BFS ::
  "int \<Rightarrow> int \<Rightarrow> 'n::{zero,plus,minus,ord} MaximumFlow \<Rightarrow> ((bool, 'n) result) option" where
  "BFS s t st =
     (let st1 = st\<lparr>distances := replicate (nat (vertices st)) (- 1)\<rparr> in
      case py_set (distances st1) s 0 of
        None \<Rightarrow> Some (Inl IndexError, st1)
      | Some ds \<Rightarrow>
          let st2 = st1\<lparr>distances := ds,
                        points := replicate (nat (vertices st1)) (- 1, - 1)\<rparr> in
          (case BFS_while t [s] st2 of
             None \<Rightarrow> None
           | Some (Inl e, st3) \<Rightarrow> Some (Inl e, st3)
           | Some (Inr _, st3) \<Rightarrow>
               (case py_get (distances st3) t of
                  None \<Rightarrow> Some (Inl IndexError, st3)
                | Some dt \<Rightarrow> Some (Inr (dt \<noteq> - 1), st3))))"

section \<open>The path augmenters\<close>

text \<open>The paired update of lines 69--71 and 84--86: \<open>flow\<close> is the value read before
  the recursive call.\<close>

definition push_flow ::
  "int \<Rightarrow> 'n::{zero,plus,minus,ord} \<Rightarrow> 'n \<Rightarrow> 'n MaximumFlow \<Rightarrow> (unit, 'n) result" where
  "push_flow idx flow pushed st =
     (case py_update (edge_list st) idx (\<lambda>(v, cap, _). (v, cap, flow + pushed)) of
        None \<Rightarrow> (Inl IndexError, st)
      | Some el1 \<Rightarrow>
          (case py_update el1 (idx XOR 1) (\<lambda>(v, cap, fl). (v, cap, fl - pushed)) of
             None \<Rightarrow> (Inl IndexError, st\<lparr>edge_list := el1\<rparr>)
           | Some el2 \<Rightarrow> (Inr (), st\<lparr>edge_list := el2, trace := el2 # trace st\<rparr>)))"

text \<open>
  Both procedures are recursive; \<open>lim\<close> is the number of nested calls the interpreter
  still allows, and the call that exceeds it raises \<^verbatim>\<open>RecursionError\<close>. A recursive
  call always passes a finite bound, so the procedures on a finite bound come
  first and the entry with the default \<^verbatim>\<open>INF\<close> after them.
\<close>

fun send_one_flow_fin ::
  "nat \<Rightarrow> int \<Rightarrow> int \<Rightarrow> 'n::{zero,plus,minus,ord} \<Rightarrow> 'n MaximumFlow \<Rightarrow> ('n, 'n) result" where
  "send_one_flow_fin 0 s t f st = (Inl RecursionError, st)"
| "send_one_flow_fin (Suc n) s t f st =
     (if s = t then (Inr f, st)
      else
        case py_get (points st) t of
          None \<Rightarrow> (Inl IndexError, st)
        | Some (u, idx) \<Rightarrow>
            (case py_get (edge_list st) idx of
               None \<Rightarrow> (Inl IndexError, st)
             | Some (_, cap, flow) \<Rightarrow>
                 (case send_one_flow_fin n s u (min f (cap - flow)) st of
                    (Inl e, st1) \<Rightarrow> (Inl e, st1)
                  | (Inr pushed, st1) \<Rightarrow>
                      (case push_flow idx flow pushed st1 of
                         (Inl e, st2) \<Rightarrow> (Inl e, st2)
                       | (Inr _, st2) \<Rightarrow> (Inr pushed, st2)))))"

fun send_one_flow ::
  "nat \<Rightarrow> int \<Rightarrow> int \<Rightarrow> 'n::{zero,plus,minus,ord} number \<Rightarrow> 'n MaximumFlow \<Rightarrow>
     ('n number, 'n) result" where
  "send_one_flow lim s t (Fin f) st = fin_result (send_one_flow_fin lim s t f st)"
| "send_one_flow 0 s t Infty st = (Inl RecursionError, st)"
| "send_one_flow (Suc n) s t Infty st =
     (if s = t then (Inr Infty, st)
      else
        case py_get (points st) t of
          None \<Rightarrow> (Inl IndexError, st)
        | Some (u, idx) \<Rightarrow>
            (case py_get (edge_list st) idx of
               None \<Rightarrow> (Inl IndexError, st)
             | Some (_, cap, flow) \<Rightarrow>
                 (case send_one_flow_fin n s u (py_min Infty (cap - flow)) st of
                    (Inl e, st1) \<Rightarrow> (Inl e, st1)
                  | (Inr pushed, st1) \<Rightarrow>
                      (case push_flow idx flow pushed st1 of
                         (Inl e, st2) \<Rightarrow> (Inl e, st2)
                       | (Inr _, st2) \<Rightarrow> (Inr (Fin pushed), st2)))))"

text \<open>\<^verbatim>\<open>range(self.last[u], len(self.adjacency_list[u]))\<close> is evaluated once, on entry
  to the loop; \<open>DFS_for\<close> runs the loop body over its elements.\<close>

fun DFS_fin ::
    "nat \<Rightarrow> int \<Rightarrow> int \<Rightarrow> 'n::{zero,plus,minus,ord} \<Rightarrow> 'n MaximumFlow \<Rightarrow> ('n, 'n) result"
  and DFS_for ::
    "nat \<Rightarrow> int \<Rightarrow> int \<Rightarrow> 'n number \<Rightarrow> int list \<Rightarrow> 'n MaximumFlow \<Rightarrow> ('n, 'n) result" where
  "DFS_fin 0 u t f st = (Inl RecursionError, st)"
| "DFS_fin (Suc n) u t f st =
     (if u = t \<or> f = 0 then (Inr f, st)
      else
        case py_get (last_arc st) u of
          None \<Rightarrow> (Inl IndexError, st)
        | Some l \<Rightarrow>
            (case py_get (adjacency_list st) u of
               None \<Rightarrow> (Inl IndexError, st)
             | Some adj \<Rightarrow> DFS_for n u t (Fin f) [l..int (length adj) - 1] st))"
| "DFS_for n u t f [] st = (Inr 0, st)"
| "DFS_for n u t f (i # rest) st =
     (case py_set (last_arc st) u i of
        None \<Rightarrow> (Inl IndexError, st)
      | Some la \<Rightarrow>
          let st1 = st\<lparr>last_arc := la\<rparr> in
          (case py_get (adjacency_list st1) u of
             None \<Rightarrow> (Inl IndexError, st1)
           | Some adj \<Rightarrow>
               (case py_get adj i of
                  None \<Rightarrow> (Inl IndexError, st1)
                | Some idx \<Rightarrow>
                    (case py_get (edge_list st1) idx of
                       None \<Rightarrow> (Inl IndexError, st1)
                     | Some (v, cap, flow) \<Rightarrow>
                         (case py_get (distances st1) v of
                            None \<Rightarrow> (Inl IndexError, st1)
                          | Some dv \<Rightarrow>
                              (case py_get (distances st1) u of
                                 None \<Rightarrow> (Inl IndexError, st1)
                               | Some du \<Rightarrow>
                                   if dv \<noteq> du + 1 then DFS_for n u t f rest st1
                                   else
                                     (case DFS_fin n v t (py_min f (cap - flow)) st1 of
                                        (Inl e, st2) \<Rightarrow> (Inl e, st2)
                                      | (Inr pushed, st2) \<Rightarrow>
                                          if pushed \<noteq> 0 then
                                            (case push_flow idx flow pushed st2 of
                                               (Inl e, st3) \<Rightarrow> (Inl e, st3)
                                             | (Inr _, st3) \<Rightarrow> (Inr pushed, st3))
                                          else DFS_for n u t f rest st2)))))))"

fun DFS ::
  "nat \<Rightarrow> int \<Rightarrow> int \<Rightarrow> 'n::{zero,plus,minus,ord} number \<Rightarrow> 'n MaximumFlow \<Rightarrow>
     ('n number, 'n) result" where
  "DFS lim u t (Fin f) st = fin_result (DFS_fin lim u t f st)"
| "DFS 0 u t Infty st = (Inl RecursionError, st)"
| "DFS (Suc n) u t Infty st =
     (if u = t then (Inr Infty, st)
      else
        case py_get (last_arc st) u of
          None \<Rightarrow> (Inl IndexError, st)
        | Some l \<Rightarrow>
            (case py_get (adjacency_list st) u of
               None \<Rightarrow> (Inl IndexError, st)
             | Some adj \<Rightarrow> fin_result (DFS_for n u t Infty [l..int (length adj) - 1] st)))"

section \<open>The run controller\<close>

definition assert_has_not_already_been_run :: "'n MaximumFlow \<Rightarrow> (unit, 'n) result" where
  "assert_has_not_already_been_run st =
     (if has_been_run st then (Inl RerunError, st)
      else (Inr (), st\<lparr>has_been_run := True\<rparr>))"

text \<open>The two \<^verbatim>\<open>while\<close> loops may run forever: not returning is \<open>None\<close>.\<close>

partial_function (option) edmonds_karp_while ::
  "nat \<Rightarrow> int \<Rightarrow> int \<Rightarrow> 'n::{zero,plus,minus,ord} number \<Rightarrow> 'n MaximumFlow \<Rightarrow>
     (('n number, 'n) result) option" where
  "edmonds_karp_while lim s t mf st =
     (case BFS s t st of
        None \<Rightarrow> None
      | Some (Inl e, st1) \<Rightarrow> Some (Inl e, st1)
      | Some (Inr reachable, st1) \<Rightarrow>
          if \<not> reachable then Some (Inr mf, st1)
          else
            (case send_one_flow lim s t Infty st1 of
               (Inl e, st2) \<Rightarrow> Some (Inl e, st2)
             | (Inr f, st2) \<Rightarrow>
                 if f = Fin 0 then Some (Inr mf, st2)
                 else edmonds_karp_while lim s t (nplus mf f) st2))"

declare edmonds_karp_while.simps [code]

definition edmonds_karp ::
  "nat \<Rightarrow> int \<Rightarrow> int \<Rightarrow> 'n::{zero,plus,minus,ord} MaximumFlow \<Rightarrow>
     (('n number, 'n) result) option" where
  "edmonds_karp lim s t st =
     (case assert_has_not_already_been_run st of
        (Inl e, st1) \<Rightarrow> Some (Inl e, st1)
      | (Inr _, st1) \<Rightarrow> edmonds_karp_while lim s t (Fin 0) st1)"

partial_function (option) dinic_phase ::
  "nat \<Rightarrow> int \<Rightarrow> int \<Rightarrow> 'n::{zero,plus,minus,ord} number \<Rightarrow> 'n number \<Rightarrow> 'n MaximumFlow \<Rightarrow>
     (('n number, 'n) result) option" where
  "dinic_phase lim s t f mf st =
     (if f \<noteq> Fin 0 then
        (case DFS lim s t Infty st of
           (Inl e, st1) \<Rightarrow> Some (Inl e, st1)
         | (Inr f1, st1) \<Rightarrow> dinic_phase lim s t f1 (nplus mf f) st1)
      else Some (Inr mf, st))"

declare dinic_phase.simps [code]

partial_function (option) dinic_while ::
  "nat \<Rightarrow> int \<Rightarrow> int \<Rightarrow> 'n::{zero,plus,minus,ord} number \<Rightarrow> 'n MaximumFlow \<Rightarrow>
     (('n number, 'n) result) option" where
  "dinic_while lim s t mf st =
     (case BFS s t st of
        None \<Rightarrow> None
      | Some (Inl e, st1) \<Rightarrow> Some (Inl e, st1)
      | Some (Inr reachable, st1) \<Rightarrow>
          if \<not> reachable then Some (Inr mf, st1)
          else
            let st2 = st1\<lparr>last_arc := replicate (nat (vertices st1)) 0\<rparr> in
            (case DFS lim s t Infty st2 of
               (Inl e, st3) \<Rightarrow> Some (Inl e, st3)
             | (Inr f, st3) \<Rightarrow>
                 (case dinic_phase lim s t f mf st3 of
                    None \<Rightarrow> None
                  | Some (Inl e, st4) \<Rightarrow> Some (Inl e, st4)
                  | Some (Inr mf1, st4) \<Rightarrow> dinic_while lim s t mf1 st4)))"

declare dinic_while.simps [code]

definition dinic ::
  "nat \<Rightarrow> int \<Rightarrow> int \<Rightarrow> 'n::{zero,plus,minus,ord} MaximumFlow \<Rightarrow>
     (('n number, 'n) result) option" where
  "dinic lim s t st =
     (case assert_has_not_already_been_run st of
        (Inl e, st1) \<Rightarrow> Some (Inl e, st1)
      | (Inr _, st1) \<Rightarrow> dinic_while lim s t (Fin 0) st1)"


subsection \<open>Instances in a store\<close>

text \<open>
  \<^verbatim>\<open>copy()\<close> is \<^verbatim>\<open>deepcopy(self)\<close>: a new object with the same contents. Which
  object a method mutates matters for it, so objects live in a store and a reference is
  a position in it. A method call replaces the object at its reference by the instance
  the method leaves behind.
\<close>

type_synonym 'n store = "'n MaximumFlow list"

definition store_copy :: "'n store \<Rightarrow> nat \<Rightarrow> 'n store \<times> nat" where
  "store_copy h a = (h @ [copy (h ! a)], length h)"

definition store_run ::
  "('n MaximumFlow \<Rightarrow> (('n number, 'n) result) option) \<Rightarrow> 'n store \<Rightarrow> nat \<Rightarrow>
     ((error + 'n number) \<times> 'n store) option" where
  "store_run m h a =
     (case m (h ! a) of None \<Rightarrow> None | Some (r, st) \<Rightarrow> Some (r, h[a := st]))"

section \<open>The example of the class documentation\<close>

definition example_graph :: "int MaximumFlow" where
  "example_graph = snd (build 3 [(0, 1, 3, True), (0, 2, 3, True), (1, 2, 3, True)])"

definition example_after_edmonds_karp :: "int MaximumFlow" where
  "example_after_edmonds_karp =
     \<lparr>vertices = 3,
      edge_list = [(1, 3, 3), (0, 0, - 3), (2, 3, 3), (0, 0, - 3), (2, 3, 3), (1, 0, - 3)],
      adjacency_list = [[0, 2], [1, 4], [3, 5]], distances = [0, - 1, - 1],
      last_arc = [], points = [(- 1, - 1), (- 1, - 1), (- 1, - 1)],
      has_been_run = True,
      trace =
        [[(1, 3, 3), (0, 0, - 3), (2, 3, 3), (0, 0, - 3), (2, 3, 3), (1, 0, - 3)],
         [(1, 3, 3), (0, 0, - 3), (2, 3, 3), (0, 0, - 3), (2, 3, 0), (1, 0, 0)],
         [(1, 3, 0), (0, 0, 0), (2, 3, 3), (0, 0, - 3), (2, 3, 0), (1, 0, 0)]]\<rparr>"

definition example_after_dinic :: "int MaximumFlow" where
  "example_after_dinic =
     \<lparr>vertices = 3,
      edge_list = [(1, 3, 3), (0, 0, - 3), (2, 3, 3), (0, 0, - 3), (2, 3, 3), (1, 0, - 3)],
      adjacency_list = [[0, 2], [1, 4], [3, 5]], distances = [0, - 1, - 1],
      last_arc = [1, 1, 0], points = [(- 1, - 1), (- 1, - 1), (- 1, - 1)],
      has_been_run = True,
      trace =
        [[(1, 3, 3), (0, 0, - 3), (2, 3, 3), (0, 0, - 3), (2, 3, 3), (1, 0, - 3)],
         [(1, 3, 0), (0, 0, 0), (2, 3, 3), (0, 0, - 3), (2, 3, 3), (1, 0, - 3)],
         [(1, 3, 0), (0, 0, 0), (2, 3, 3), (0, 0, - 3), (2, 3, 0), (1, 0, 0)]]\<rparr>"

text \<open>Two graphs with float capacities: the edges \<open>0\<rightarrow>1\<close>, \<open>1\<rightarrow>3\<close>, \<open>1\<rightarrow>2\<close>, \<open>2\<rightarrow>3\<close> with
  capacities \<^verbatim>\<open>0.9\<close>, \<^verbatim>\<open>0.3\<close>, \<^verbatim>\<open>5.0\<close>, \<^verbatim>\<open>5.0\<close>, and the edges \<open>0\<rightarrow>1\<close>, \<open>1\<rightarrow>2\<close>, \<open>1\<rightarrow>2\<close>,
  \<open>0\<rightarrow>1\<close> with capacities \<^verbatim>\<open>0.3\<close>, \<^verbatim>\<open>0.1\<close>, \<^verbatim>\<open>0.7\<close>, \<^verbatim>\<open>2.2\<close>.\<close>

definition float_edges_1 :: "dbl edge_spec list" where
  "float_edges_1 =
     [(0, 1, float_of_ratio 9 10, True), (1, 3, float_of_ratio 3 10, True),
      (1, 2, float_of_ratio 5 1, True), (2, 3, float_of_ratio 5 1, True)]"

definition float_graph_1 :: "dbl MaximumFlow" where
  "float_graph_1 = snd (build 4 float_edges_1)"

definition float_edges_2 :: "dbl edge_spec list" where
  "float_edges_2 =
     [(0, 1, float_of_ratio 3 10, True), (1, 2, float_of_ratio 1 10, True),
      (1, 2, float_of_ratio 7 10, True), (0, 1, float_of_ratio 22 10, True)]"

definition float_graph_2 :: "dbl MaximumFlow" where
  "float_graph_2 = snd (build 3 float_edges_2)"

section \<open>Notions for the proofs\<close>

text \<open>The part of an edge list that no run changes: heads and capacities.\<close>

definition shape :: "'n edge list \<Rightarrow> (int \<times> 'n) list" where
  "shape el = map (\<lambda>(v, cap, fl). (v, cap)) el"

definition frame :: "'n MaximumFlow \<Rightarrow> 'n MaximumFlow \<Rightarrow> bool" where
  "frame st st1 \<longleftrightarrow>
     vertices st1 = vertices st \<and> adjacency_list st1 = adjacency_list st \<and>
     has_been_run st1 = has_been_run st \<and> shape (edge_list st1) = shape (edge_list st)"

subsection \<open>Edges and well-formed graphs\<close>

text \<open>The head, capacity and flow of the entry at index \<open>i\<close> of an edge list. The
  tail of edge \<open>i\<close> is the head of its partner, \<open>hd_of el (i XOR
  1)\<close>.\<close>

definition hd_of :: "int edge list \<Rightarrow> int \<Rightarrow> int" where
  "hd_of el i = fst (el ! nat i)"

definition cap_of :: "int edge list \<Rightarrow> int \<Rightarrow> int" where
  "cap_of el i = fst (snd (el ! nat i))"

definition flow_of :: "int edge list \<Rightarrow> int \<Rightarrow> int" where
  "flow_of el i = snd (snd (el ! nat i))"

text \<open>A well-formed graph: there is an adjacency list for every vertex, the edge list holds
  whole pairs, every head is a vertex, and the adjacency list of \<open>u\<close> holds,
  once each, the edges whose tail is \<open>u\<close>.\<close>

definition wf_graph :: "int MaximumFlow \<Rightarrow> bool" where
  "wf_graph st \<longleftrightarrow>
     0 \<le> vertices st \<and> length (adjacency_list st) = nat (vertices st) \<and>
     even (length (edge_list st)) \<and>
     (\<forall>i. 0 \<le> i \<and> i < int (length (edge_list st)) \<longrightarrow>
        0 \<le> hd_of (edge_list st) i \<and> hd_of (edge_list st) i < vertices st) \<and>
     (\<forall>u. 0 \<le> u \<and> u < vertices st \<longrightarrow>
        distinct (adjacency_list st ! nat u) \<and>
        set (adjacency_list st ! nat u) =
          {i. 0 \<le> i \<and> i < int (length (edge_list st)) \<and> hd_of (edge_list st) (i XOR 1) = u})"

text \<open>The \<^verbatim>\<open>add_edge\<close> calls of a construction name vertices of
  \<open>[0, V)\<close>; their capacities are non-negative.\<close>

definition valid_edges :: "int \<Rightarrow> int edge_spec list \<Rightarrow> bool" where
  "valid_edges V es = list_all (\<lambda>(u, v, c, d). 0 \<le> u \<and> u < V \<and> 0 \<le> v \<and> v < V) es"

definition nonneg_caps :: "int edge_spec list \<Rightarrow> bool" where
  "nonneg_caps es = list_all (\<lambda>(u, v, c, d). 0 \<le> c) es"

text \<open>An instance on which no flow has been pushed and no run started, and an edge list
  without negative capacities.\<close>

definition fresh :: "int MaximumFlow \<Rightarrow> bool" where
  "fresh st \<longleftrightarrow> (\<forall>e \<in> set (edge_list st). snd (snd e) = 0) \<and> trace st = [] \<and> \<not> has_been_run st"

definition caps_nonneg :: "int edge list \<Rightarrow> bool" where
  "caps_nonneg el \<longleftrightarrow> (\<forall>e \<in> set el. 0 \<le> fst (snd e))"

subsection \<open>Flows\<close>

text \<open>The flow values stored on the edges that leave a vertex (its adjacency list) and on the
  edges that enter it (the entries with that head), for any kind of number.\<close>

definition out_flows :: "'n MaximumFlow \<Rightarrow> int \<Rightarrow> 'n list" where
  "out_flows st v = map (\<lambda>i. snd (snd (edge_list st ! nat i))) (adjacency_list st ! nat v)"

definition in_flows :: "'n MaximumFlow \<Rightarrow> int \<Rightarrow> 'n list" where
  "in_flows st v = map (\<lambda>e. snd (snd e)) (filter (\<lambda>e. fst e = v) (edge_list st))"

text \<open>The stored flow values summed over the edges that leave a vertex (its adjacency list)
  and over the edges that enter it (the entries with that head). A reverse entry counts
  with its negative value.\<close>

definition flow_out :: "int MaximumFlow \<Rightarrow> int \<Rightarrow> int" where
  "flow_out st v = (\<Sum>i\<leftarrow>adjacency_list st ! nat v. flow_of (edge_list st) i)"

definition flow_in :: "int MaximumFlow \<Rightarrow> int \<Rightarrow> int" where
  "flow_in st v = (\<Sum>e\<leftarrow>filter (\<lambda>e. fst e = v) (edge_list st). snd (snd e))"

text \<open>The reverse-pair invariant and the capacity constraint on an edge list. \<open>trace_ok
  nn\<close> states them for the current edge list and for every edge list recorded
  after a paired update; the capacity constraint is part of it when \<open>nn\<close>
  holds, which is for graphs without negative capacities.\<close>

definition antisym :: "int edge list \<Rightarrow> bool" where
  "antisym el \<longleftrightarrow> (\<forall>i. 0 \<le> i \<and> i < int (length el) \<longrightarrow> flow_of el (i XOR 1) = - flow_of el i)"

definition cap_ok :: "int edge list \<Rightarrow> bool" where
  "cap_ok el \<longleftrightarrow> (\<forall>i. 0 \<le> i \<and> i < int (length el) \<longrightarrow> flow_of el i \<le> cap_of el i)"

definition edges_ok :: "bool \<Rightarrow> int edge list \<Rightarrow> bool" where
  "edges_ok nn el \<longleftrightarrow> even (length el) \<and> antisym el \<and> (nn \<longrightarrow> cap_ok el)"

definition trace_ok :: "bool \<Rightarrow> int MaximumFlow \<Rightarrow> bool" where
  "trace_ok nn st \<longleftrightarrow> edges_ok nn (edge_list st) \<and> (\<forall>el \<in> set (trace st). edges_ok nn el)"

text \<open>\<open>el1\<close> is \<open>el\<close> with \<open>p\<close> more flow on edge
  \<open>idx\<close> and \<open>p\<close> less on its partner.\<close>

definition flows_pushed :: "int edge list \<Rightarrow> int edge list \<Rightarrow> int \<Rightarrow> int \<Rightarrow> bool" where
  "flows_pushed el el1 idx p \<longleftrightarrow>
     shape el1 = shape el \<and>
     (\<forall>j. 0 \<le> j \<and> j < int (length el) \<longrightarrow>
        flow_of el1 j = flow_of el j + (if j = idx then p else 0) - (if j = idx XOR 1 then p else 0))"

subsection \<open>The level structure\<close>

text \<open>The level of a vertex and the residual capacity of an edge.\<close>

definition dist_of :: "int MaximumFlow \<Rightarrow> int \<Rightarrow> int" where
  "dist_of st v = distances st ! nat v"

definition resid :: "int edge list \<Rightarrow> int \<Rightarrow> int" where
  "resid el i = cap_of el i - flow_of el i"

text \<open>The parent pointer of a reached vertex names an edge of positive residual capacity that
  enters it from a reached vertex one level lower.\<close>

definition parent_ok :: "int MaximumFlow \<Rightarrow> int \<Rightarrow> bool" where
  "parent_ok st v \<longleftrightarrow>
     (case points st ! nat v of (u, idx) \<Rightarrow>
        0 \<le> u \<and> u < vertices st \<and> 0 \<le> idx \<and> idx < int (length (edge_list st)) \<and>
        hd_of (edge_list st) idx = v \<and> hd_of (edge_list st) (idx XOR 1) = u \<and>
        0 < resid (edge_list st) idx \<and> dist_of st u \<noteq> - 1 \<and>
        dist_of st v = dist_of st u + 1)"

text \<open>What the level builder leaves behind: the source at level 0, a parent pointer for every
  other reached vertex, and no gap in the levels.\<close>

definition bfs_tree :: "int \<Rightarrow> int MaximumFlow \<Rightarrow> bool" where
  "bfs_tree s st \<longleftrightarrow>
     length (distances st) = nat (vertices st) \<and> length (points st) = nat (vertices st) \<and>
     0 \<le> s \<and> s < vertices st \<and> dist_of st s = 0 \<and>
     (\<forall>v. 0 \<le> v \<and> v < vertices st \<longrightarrow> - 1 \<le> dist_of st v) \<and>
     (\<forall>v. 0 \<le> v \<and> v < vertices st \<and> v \<noteq> s \<and> dist_of st v \<noteq> - 1 \<longrightarrow> parent_ok st v) \<and>
     (\<forall>v d. 0 \<le> v \<and> v < vertices st \<and> dist_of st v \<noteq> - 1 \<and> 0 \<le> d \<and> d \<le> dist_of st v \<longrightarrow>
        (\<exists>w. 0 \<le> w \<and> w < vertices st \<and> dist_of st w = d))"

text \<open>Every edge of positive residual capacity that leaves a reached vertex which is not
  waiting in the queue \<open>q\<close> leads to a reached vertex, the edges in
  \<open>X\<close> excepted.\<close>

definition closed_for :: "int MaximumFlow \<Rightarrow> int list \<Rightarrow> int set \<Rightarrow> bool" where
  "closed_for st q X \<longleftrightarrow>
     (\<forall>i. 0 \<le> i \<and> i < int (length (edge_list st)) \<and> 0 < resid (edge_list st) i \<and>
          dist_of st (hd_of (edge_list st) (i XOR 1)) \<noteq> - 1 \<and>
          hd_of (edge_list st) (i XOR 1) \<notin> set q \<and> i \<notin> X \<longrightarrow>
          dist_of st (hd_of (edge_list st) i) \<noteq> - 1)"

definition unreached :: "int MaximumFlow \<Rightarrow> int set" where
  "unreached st = {v. 0 \<le> v \<and> v < vertices st \<and> dist_of st v = - 1}"

text \<open>The state after the level builder has reached the head of edge \<open>idx\<close> from
  \<open>u\<close>; a queue holds reached vertices only.\<close>

definition visit :: "int MaximumFlow \<Rightarrow> int \<Rightarrow> int \<Rightarrow> int MaximumFlow" where
  "visit st u idx =
     st\<lparr>distances := (distances st)[nat (hd_of (edge_list st) idx) := dist_of st u + 1],
        points := (points st)[nat (hd_of (edge_list st) idx) := (u, idx)]\<rparr>"

definition queue_ok :: "int MaximumFlow \<Rightarrow> int list \<Rightarrow> bool" where
  "queue_ok st q \<longleftrightarrow> (\<forall>w \<in> set q. 0 \<le> w \<and> w < vertices st \<and> dist_of st w \<noteq> - 1)"

subsection \<open>Augmentations\<close>

text \<open>\<open>st1\<close> is \<open>st\<close> with \<open>p\<close> more units leaving
  \<open>a\<close> and \<open>p\<close> more units entering \<open>b\<close>; every
  other vertex has the balance it had.\<close>

definition augmented :: "int MaximumFlow \<Rightarrow> int MaximumFlow \<Rightarrow> int \<Rightarrow> int \<Rightarrow> int \<Rightarrow> bool" where
  "augmented st st1 a b p \<longleftrightarrow>
     frame st st1 \<and> distances st1 = distances st \<and> points st1 = points st \<and>
     (\<forall>w. 0 \<le> w \<and> w < vertices st \<longrightarrow>
        flow_out st1 w = flow_out st w + (if w = a then p else 0) - (if w = b then p else 0))"

text \<open>Conservation at the inner vertices in terms of the net flow out of a vertex, and the
  invariant of a run.\<close>

definition conserved :: "int \<Rightarrow> int \<Rightarrow> int MaximumFlow \<Rightarrow> bool" where
  "conserved s t st \<longleftrightarrow>
     (\<forall>w. 0 \<le> w \<and> w < vertices st \<and> w \<noteq> s \<and> w \<noteq> t \<longrightarrow> flow_out st w = 0)"

definition flow_state :: "bool \<Rightarrow> int \<Rightarrow> int \<Rightarrow> int MaximumFlow \<Rightarrow> bool" where
  "flow_state nn s t st \<longleftrightarrow> wf_graph st \<and> trace_ok nn st \<and> conserved s t st"

text \<open>The edges a search from \<open>u\<close> can change: those between consecutive levels,
  from the level of \<open>u\<close> upwards, and their partners.\<close>

definition touched :: "int MaximumFlow \<Rightarrow> int \<Rightarrow> int \<Rightarrow> bool" where
  "touched st u j \<longleftrightarrow>
     (dist_of st (hd_of (edge_list st) j) = dist_of st (hd_of (edge_list st) (j XOR 1)) + 1 \<and>
      dist_of st u \<le> dist_of st (hd_of (edge_list st) (j XOR 1))) \<or>
     (dist_of st (hd_of (edge_list st) (j XOR 1)) = dist_of st (hd_of (edge_list st) j) + 1 \<and>
      dist_of st u \<le> dist_of st (hd_of (edge_list st) j))"

text \<open>What a call of \<^verbatim>\<open>DFS\<close> at \<open>u\<close> leaves behind, for any
  recursion limit: an exception or a zero result leaves the flows alone, a result
  \<open>p\<close> is an augmentation by \<open>p\<close> from \<open>u\<close> to the
  sink.\<close>

definition dfs_post :: "bool \<Rightarrow> int MaximumFlow \<Rightarrow> int \<Rightarrow> int \<Rightarrow> (int, int) result \<Rightarrow> bool" where
  "dfs_post nn st u t res \<longleftrightarrow>
     frame st (snd res) \<and> distances (snd res) = distances st \<and> points (snd res) = points st \<and>
     (case fst res of
        Inl e \<Rightarrow> edge_list (snd res) = edge_list st \<and> trace (snd res) = trace st
      | Inr p \<Rightarrow>
          (nn \<longrightarrow> 0 \<le> p) \<and>
          (if p = 0 \<or> u = t then edge_list (snd res) = edge_list st \<and> trace (snd res) = trace st
           else augmented st (snd res) u t p \<and> trace_ok nn (snd res) \<and>
             (\<forall>j. 0 \<le> j \<and> j < int (length (edge_list st)) \<and> \<not> touched st u j \<longrightarrow>
                flow_of (edge_list (snd res)) j = flow_of (edge_list st) j)))"

definition bounded_by :: "bool \<Rightarrow> int number \<Rightarrow> (int, int) result \<Rightarrow> bool" where
  "bounded_by nn f res \<longleftrightarrow>
     (\<forall>x p. nn \<and> f = Fin x \<and> fst res = Inr p \<longrightarrow> p \<le> x)"

text \<open>Two states that differ in the current-arc cursors at most.\<close>

definition same_flow :: "int MaximumFlow \<Rightarrow> int MaximumFlow \<Rightarrow> bool" where
  "same_flow st st1 \<longleftrightarrow>
     frame st st1 \<and> edge_list st1 = edge_list st \<and> trace st1 = trace st \<and>
     distances st1 = distances st \<and> points st1 = points st"

text \<open>Only the positive flow values, the amounts actually sent along an edge.\<close>

definition sent_out :: "int MaximumFlow \<Rightarrow> int \<Rightarrow> int" where
  "sent_out st v = (\<Sum>i\<leftarrow>adjacency_list st ! nat v. max 0 (flow_of (edge_list st) i))"

definition sent_in :: "int MaximumFlow \<Rightarrow> int \<Rightarrow> int" where
  "sent_in st v = (\<Sum>e\<leftarrow>filter (\<lambda>e. fst e = v) (edge_list st). max 0 (snd (snd e)))"

subsection \<open>Cuts\<close>

text \<open>The edges whose tail is in a vertex set \<open>X\<close>, those of them that leave
  \<open>X\<close>, and the capacity of the cut. The vertices the level builder has
  reached form the set of interest.\<close>

definition edges_from :: "int MaximumFlow \<Rightarrow> int set \<Rightarrow> int set" where
  "edges_from st X = {i. 0 \<le> i \<and> i < int (length (edge_list st)) \<and>
      hd_of (edge_list st) (i XOR 1) \<in> X}"

definition cut_edges :: "int MaximumFlow \<Rightarrow> int set \<Rightarrow> int set" where
  "cut_edges st X = {i. i \<in> edges_from st X \<and> hd_of (edge_list st) i \<notin> X}"

definition cut_capacity :: "int MaximumFlow \<Rightarrow> int set \<Rightarrow> int" where
  "cut_capacity st X = (\<Sum>i \<in> cut_edges st X. cap_of (edge_list st) i)"

definition reached :: "int MaximumFlow \<Rightarrow> int set" where
  "reached st = {v. 0 \<le> v \<and> v < vertices st \<and> dist_of st v \<noteq> - 1}"

text \<open>The capacity of the edges leaving a vertex bounds the flow out of it.\<close>

definition out_capacity :: "int MaximumFlow \<Rightarrow> int \<Rightarrow> int" where
  "out_capacity st v = (\<Sum>i\<leftarrow>adjacency_list st ! nat v. cap_of (edge_list st) i)"

subsection \<open>Live and dead edges\<close>

text \<open>An edge of positive residual capacity that climbs one level. A vertex is alive when such
  edges lead from it to the sink; an edge is dead when it is no such edge or its head is
  not alive.\<close>

definition level_edge :: "int edge list \<Rightarrow> int list \<Rightarrow> int \<Rightarrow> bool" where
  "level_edge el ds i \<longleftrightarrow>
     0 \<le> i \<and> i < int (length el) \<and>
     ds ! nat (hd_of el i) = ds ! nat (hd_of el (i XOR 1)) + 1 \<and> 0 < resid el i"

inductive alive :: "int edge list \<Rightarrow> int list \<Rightarrow> int \<Rightarrow> int \<Rightarrow> bool" for el ds t where
  alive_sink: "alive el ds t t"
| alive_edge: "level_edge el ds i \<Longrightarrow> alive el ds t (hd_of el i) \<Longrightarrow>
    alive el ds t (hd_of el (i XOR 1))"

definition dead_edge :: "int MaximumFlow \<Rightarrow> int \<Rightarrow> int \<Rightarrow> bool" where
  "dead_edge st t i \<longleftrightarrow>
     \<not> (level_edge (edge_list st) (distances st) i \<and>
        alive (edge_list st) (distances st) t (hd_of (edge_list st) i))"

text \<open>The current-arc invariant: the edges a cursor has passed are dead.\<close>

definition dead_before :: "int MaximumFlow \<Rightarrow> int \<Rightarrow> int \<Rightarrow> int \<Rightarrow> bool" where
  "dead_before st t u k \<longleftrightarrow>
     (\<forall>j. 0 \<le> j \<and> j < k \<and> j < int (length (adjacency_list st ! nat u)) \<longrightarrow>
        dead_edge st t (adjacency_list st ! nat u ! nat j))"

definition skipped_dead :: "int MaximumFlow \<Rightarrow> int \<Rightarrow> bool" where
  "skipped_dead st t \<longleftrightarrow>
     (\<forall>w. 0 \<le> w \<and> w < vertices st \<and> w \<noteq> t \<longrightarrow> dead_before st t w (last_arc st ! nat w))"

text \<open>There is a cursor for every vertex and none is negative; together with well-formedness
  and levels below \<open>V\<close> this is what a call of
  \<^verbatim>\<open>DFS\<close> needs to raise nothing.\<close>

definition cursors_ok :: "int MaximumFlow \<Rightarrow> bool" where
  "cursors_ok st \<longleftrightarrow>
     length (last_arc st) = nat (vertices st) \<and>
     (\<forall>w. 0 \<le> w \<and> w < vertices st \<longrightarrow> 0 \<le> last_arc st ! nat w)"

definition dfs_ready :: "int MaximumFlow \<Rightarrow> bool" where
  "dfs_ready st \<longleftrightarrow>
     wf_graph st \<and> length (distances st) = nat (vertices st) \<and> trace_ok True st \<and>
     cursors_ok st \<and> (\<forall>v. 0 \<le> v \<and> v < vertices st \<longrightarrow> dist_of st v < vertices st)"

definition positive :: "int number \<Rightarrow> bool" where
  "positive f \<longleftrightarrow> (case f of Infty \<Rightarrow> True | Fin x \<Rightarrow> 0 < x)"

text \<open>A call of \<^verbatim>\<open>DFS\<close> at \<open>u\<close> returns a value; when the
  value is zero the current-arc invariant is kept and, for a positive bound,
  \<open>u\<close> is not alive.\<close>

definition dfs_live ::
  "int MaximumFlow \<Rightarrow> int \<Rightarrow> int \<Rightarrow> bool \<Rightarrow> bool \<Rightarrow> (int, int) result \<Rightarrow> bool" where
  "dfs_live st u t pre pos res \<longleftrightarrow>
     (\<exists>p. fst res = Inr p \<and> cursors_ok (snd res) \<and>
        (p = 0 \<and> skipped_dead st t \<and> pre \<longrightarrow>
           skipped_dead (snd res) t \<and>
           (pos \<longrightarrow> \<not> alive (edge_list st) (distances st) t u)))"

section \<open>What every operation leaves alone\<close>

text \<open>No operation after construction changes the vertex count, the adjacency lists,
  the run flag (the guard apart) or the head and capacity of an edge.\<close>


lemma frame_refl [simp]: "frame st st"
  by (simp add: frame_def)

lemma py_update_length: "py_update xs i f = Some ys \<Longrightarrow> length ys = length xs"
  by (auto simp: py_update_def)

lemma shape_list_update:
  "(case el ! k of (v, cap, fl) \<Rightarrow> (v, cap)) = (case e of (v, cap, fl) \<Rightarrow> (v, cap)) \<Longrightarrow>
   shape (el[k := e]) = shape el"
proof (cases "k < length el")
  case True
  assume "(case el ! k of (v, cap, fl) \<Rightarrow> (v, cap)) = (case e of (v, cap, fl) \<Rightarrow> (v, cap))"
  with True show ?thesis
    by (simp add: shape_def map_update list_update_same_conv)
next
  case False
  then have "el[k := e] = el" by (intro list_update_beyond) simp
  then show ?thesis by simp
qed

lemma shape_flow_update:
  assumes "py_update el i (\<lambda>(v, cap, fl). (v, cap, g v cap fl)) = Some el1"
  shows "shape el1 = shape el"
proof -
  from assms obtain k where k: "el1 = el[k := (\<lambda>(v, cap, fl). (v, cap, g v cap fl)) (el ! k)]"
    by (auto simp: py_update_def)
  show ?thesis unfolding k
    by (rule shape_list_update) (simp split: prod.splits)
qed

lemma push_flow_frame:
  assumes "push_flow idx fl p st = (r, st1)"
  shows "frame st st1 \<and> r \<noteq> Inl RerunError \<and> distances st1 = distances st \<and>
    points st1 = points st \<and> last_arc st1 = last_arc st"
proof (cases "py_update (edge_list st) idx (\<lambda>(v, cap, _). (v, cap, fl + p))")
  case None
  with assms show ?thesis by (auto simp add: push_flow_def)
next
  case (Some el1)
  note s1 = shape_flow_update[OF Some]
  show ?thesis
  proof (cases "py_update el1 (idx XOR 1) (\<lambda>(v, cap, fl). (v, cap, fl - p))")
    case None
    with Some assms s1 show ?thesis by (auto simp add: push_flow_def frame_def)
  next
    case (Some el2)
    note s2 = shape_flow_update[OF Some]
    from Some \<open>py_update (edge_list st) idx _ = Some el1\<close> assms s1 s2 show ?thesis
      by (auto simp add: push_flow_def frame_def)
  qed
qed

lemma send_one_flow_fin_frame:
  "send_one_flow_fin n s t f st = (r, st1) \<Longrightarrow> frame st st1 \<and> r \<noteq> Inl RerunError \<and>
    distances st1 = distances st \<and> points st1 = points st \<and> last_arc st1 = last_arc st"
proof (induction n arbitrary: t f r st1)
  case 0
  then show ?case by auto
next
  case (Suc n)
  show ?case
  proof (cases "s = t")
    case True
    with Suc.prems show ?thesis by auto
  next
    case False
    with Suc.prems show ?thesis
      by (auto split: option.splits prod.splits sum.splits
          dest!: Suc.IH push_flow_frame simp: frame_def)
  qed
qed

lemma send_one_flow_frame:
  "send_one_flow n s t f st = (r, st1) \<Longrightarrow> frame st st1 \<and> r \<noteq> Inl RerunError \<and>
    distances st1 = distances st \<and> points st1 = points st \<and> last_arc st1 = last_arc st"
proof (cases f)
  case (Fin x)
  assume a: "send_one_flow n s t f st = (r, st1)"
  obtain r0 st0 where e: "send_one_flow_fin n s t x st = (r0, st0)" by force
  from send_one_flow_fin_frame[OF e] a Fin e show ?thesis by (cases r0) auto
next
  case Infty
  assume a: "send_one_flow n s t f st = (r, st1)"
  show ?thesis
  proof (cases n)
    case 0
    with a Infty show ?thesis by auto
  next
    case (Suc m)
    with a Infty show ?thesis
      by (auto split: option.splits prod.splits sum.splits if_splits
          dest!: send_one_flow_fin_frame push_flow_frame simp: frame_def)
  qed
qed

lemma BFS_for_frame:
  "BFS_for u adj q st = (r, st1) \<Longrightarrow>
     frame st st1 \<and> r \<noteq> Inl RerunError \<and> edge_list st1 = edge_list st \<and>
     trace st1 = trace st \<and> last_arc st1 = last_arc st"
proof (induction adj arbitrary: q st)
  case Nil
  then show ?case by auto
next
  case (Cons idx rest)
  from Cons.prems show ?case
    by (auto split: option.splits prod.splits if_splits dest!: Cons.IH simp: frame_def)
qed


lemmas BFS_while_induct = BFS_while.raw_induct [rotated 1, consumes 1, case_names step]

lemma BFS_while_frame:
  assumes "BFS_while t q st = Some y"
  shows "frame st (snd y) \<and> fst y \<noteq> Inl RerunError \<and> edge_list (snd y) = edge_list st \<and>
     trace (snd y) = trace st \<and> last_arc (snd y) = last_arc st"
  using assms
proof (induction rule: BFS_while_induct)
  case (step loop t q st y)
  show ?case
  proof (cases q)
    case Nil
    with step(2) show ?thesis by auto
  next
    case (Cons u q1)
    show ?thesis
    proof (cases "u = t")
      case True
      with Cons step(2) show ?thesis by auto
    next
      case False
      show ?thesis
      proof (cases "py_get (adjacency_list st) u")
        case None
        with False Cons step(2) show ?thesis by auto
      next
        case (Some adj)
        obtain r0 st0 where e: "BFS_for u adj q1 st = (r0, st0)" by force
        note f = BFS_for_frame[OF e]
        show ?thesis
        proof (cases r0)
          case (Inl err)
          with f e Some False Cons step(2) show ?thesis by auto
        next
          case (Inr q2)
          with e Some False Cons step(2) have "loop t q2 st0 = Some y" by simp
          from step(1)[OF this] f show ?thesis by (auto simp: frame_def)
        qed
      qed
    qed
  qed
qed

lemma BFS_frame:
  "BFS s t st = Some (r, st1) \<Longrightarrow>
     frame st st1 \<and> r \<noteq> Inl RerunError \<and> edge_list st1 = edge_list st \<and>
     trace st1 = trace st \<and> last_arc st1 = last_arc st"
  unfolding BFS_def Let_def
  by (auto split: option.splits prod.splits sum.splits dest!: BFS_while_frame simp: frame_def)



lemma DFS_for_frame_aux:
  fixes st :: "'n::{zero,plus,minus,ord} MaximumFlow"
  assumes fin: "\<And>u t f (st :: 'n MaximumFlow) r st1. DFS_fin n u t f st = (r, st1) \<Longrightarrow>
      frame st st1 \<and> r \<noteq> Inl RerunError \<and> distances st1 = distances st \<and> points st1 = points st"
  shows "DFS_for n u t f is st = (r, st1) \<Longrightarrow>
      frame st st1 \<and> r \<noteq> Inl RerunError \<and> distances st1 = distances st \<and> points st1 = points st"
proof (induction "is" arbitrary: st)
  case Nil
  then show ?case by auto
next
  case (Cons i rest)
  from Cons.prems show ?case
    by (auto simp: Let_def frame_def split: option.splits prod.splits sum.splits if_splits
        dest!: Cons.IH fin push_flow_frame)
qed

lemma DFS_fin_frame:
  "DFS_fin n u t f st = (r, st1) \<Longrightarrow>
      frame st st1 \<and> r \<noteq> Inl RerunError \<and> distances st1 = distances st \<and> points st1 = points st"
proof (induction n arbitrary: u t f st r st1)
  case 0
  then show ?case by auto
next
  case (Suc n)
  from Suc.prems show ?case
    by (auto split: option.splits if_splits dest!: DFS_for_frame_aux[OF Suc.IH, rotated])
qed

lemma DFS_for_frame:
  "DFS_for n u t f is st = (r, st1) \<Longrightarrow>
      frame st st1 \<and> r \<noteq> Inl RerunError \<and> distances st1 = distances st \<and> points st1 = points st"
  by (rule DFS_for_frame_aux[OF DFS_fin_frame])


lemma fin_result_eq:
  "fin_result x = (r, st1) \<Longrightarrow>
     (\<exists>r0. x = (r0, st1) \<and> (r = Inl RerunError \<longrightarrow> r0 = Inl RerunError))"
  by (cases x; cases "fst x") auto

lemma DFS_frame:
  assumes "DFS n u t f st = (r, st1)"
  shows "frame st st1 \<and> r \<noteq> Inl RerunError \<and> distances st1 = distances st \<and>
    points st1 = points st"
proof (cases f)
  case (Fin x)
  with assms obtain r0 where "DFS_fin n u t x st = (r0, st1)"
    and "r = Inl RerunError \<longrightarrow> r0 = Inl RerunError"
    by (auto dest!: fin_result_eq)
  with DFS_fin_frame[of n u t x st r0 st1] show ?thesis by auto
next
  case Infty
  show ?thesis
  proof (cases n)
    case 0
    with assms Infty show ?thesis by auto
  next
    case (Suc m)
    with assms Infty show ?thesis
      by (auto split: option.splits if_splits dest!: fin_result_eq DFS_for_frame)
  qed
qed

lemmas edmonds_karp_while_induct =
  edmonds_karp_while.raw_induct [rotated 1, consumes 1, case_names step]

lemmas dinic_phase_induct = dinic_phase.raw_induct [rotated 1, consumes 1, case_names step]

lemmas dinic_while_induct = dinic_while.raw_induct [rotated 1, consumes 1, case_names step]

lemma edmonds_karp_while_frame:
  assumes "edmonds_karp_while lim s t mf st = Some y"
  shows "frame st (snd y) \<and> fst y \<noteq> Inl RerunError"
  using assms
proof (induction rule: edmonds_karp_while_induct)
  case (step loop lim s t mf st y)
  from step(2) obtain r1 st1 where b: "BFS s t st = Some (r1, st1)"
    by (cases "BFS s t st") auto
  note fb = BFS_frame[OF b]
  show ?case
  proof (cases r1)
    case (Inl e)
    with b fb step(2) show ?thesis by auto
  next
    case (Inr reachable)
    show ?thesis
    proof (cases reachable)
      case False
      with Inr b fb step(2) show ?thesis by auto
    next
      case True
      obtain r2 st2 where sf: "send_one_flow lim s t Infty st1 = (r2, st2)" by force
      note fs = send_one_flow_frame[OF sf]
      show ?thesis
      proof (cases r2)
        case (Inl e)
        with True Inr b sf step(2) have "y = (Inl e, st2)" by simp
        with Inl fb fs show ?thesis by (auto simp: frame_def)
      next
        case r2: (Inr f)
        show ?thesis
        proof (cases "f = Fin 0")
          case t: True
          with r2 True Inr b sf step(2) have "y = (Inr mf, st2)" by simp
          with fb fs show ?thesis by (auto simp: frame_def)
        next
          case False
          with r2 True Inr b sf step(2) have "loop lim s t (nplus mf f) st2 = Some y" by simp
          from step(1)[OF this] fb fs show ?thesis by (auto simp: frame_def)
        qed
      qed
    qed
  qed
qed

lemma dinic_phase_frame:
  assumes "dinic_phase lim s t f mf st = Some y"
  shows "frame st (snd y) \<and> fst y \<noteq> Inl RerunError"
  using assms
proof (induction rule: dinic_phase_induct)
  case (step loop lim s t f mf st y)
  show ?case
  proof (cases "f = Fin 0")
    case True
    with step(2) show ?thesis by auto
  next
    case False
    obtain r1 st1 where d: "DFS lim s t Infty st = (r1, st1)" by force
    note fd = DFS_frame[OF d]
    show ?thesis
    proof (cases r1)
      case (Inl e)
      with False d step(2) have "y = (Inl e, st1)" by simp
      with Inl fd show ?thesis by auto
    next
      case (Inr f1)
      with False d step(2) have "loop lim s t f1 (nplus mf f) st1 = Some y" by simp
      from step(1)[OF this] fd show ?thesis by (auto simp: frame_def)
    qed
  qed
qed

lemma dinic_while_frame:
  assumes "dinic_while lim s t mf st = Some y"
  shows "frame st (snd y) \<and> fst y \<noteq> Inl RerunError"
  using assms
proof (induction rule: dinic_while_induct)
  case (step loop lim s t mf st y)
  from step(2) obtain r1 st1 where b: "BFS s t st = Some (r1, st1)"
    by (cases "BFS s t st") auto
  note fb = BFS_frame[OF b]
  show ?case
  proof (cases r1)
    case (Inl e)
    with b fb step(2) show ?thesis by auto
  next
    case (Inr reachable)
    show ?thesis
    proof (cases reachable)
      case False
      with Inr b fb step(2) show ?thesis by auto
    next
      case True
      define st2 where "st2 = st1\<lparr>last_arc := replicate (nat (vertices st1)) 0\<rparr>"
      have f2: "frame st1 st2" by (simp add: st2_def frame_def)
      obtain r3 st3 where d: "DFS lim s t Infty st2 = (r3, st3)" by force
      note fd = DFS_frame[OF d]
      show ?thesis
      proof (cases r3)
        case (Inl e)
        with True Inr b d step(2) have "y = (Inl e, st3)" by (simp add: Let_def st2_def)
        with Inl fb fd f2 show ?thesis by (auto simp: frame_def)
      next
        case r3: (Inr f)
        from r3 True Inr b d step(2) obtain r4 st4
          where p: "dinic_phase lim s t f mf st3 = Some (r4, st4)"
          by (cases "dinic_phase lim s t f mf st3") (auto simp: Let_def st2_def)
        note fp = dinic_phase_frame[OF p]
        show ?thesis
        proof (cases r4)
          case (Inl e)
          with p r3 True Inr b d step(2) have "y = (Inl e, st4)" by (simp add: Let_def st2_def)
          with Inl fb fd f2 fp show ?thesis by (auto simp: frame_def)
        next
          case (Inr mf1)
          with p r3 True \<open>r1 = Inr reachable\<close> b d step(2)
          have "loop lim s t mf1 st4 = Some y" by (simp add: Let_def st2_def)
          from step(1)[OF this] fb fd f2 fp show ?thesis by (auto simp: frame_def)
        qed
      qed
    qed
  qed
qed

lemma edmonds_karp_outcome:
  assumes "edmonds_karp lim s t st = Some (r, st1)"
  shows "has_been_run st1 \<and> (r = Inl RerunError \<longleftrightarrow> has_been_run st) \<and>
    (has_been_run st \<longrightarrow> st1 = st)"
proof (cases "has_been_run st")
  case True
  with assms show ?thesis
    by (auto simp: edmonds_karp_def assert_has_not_already_been_run_def)
next
  case False
  with assms have "edmonds_karp_while lim s t (Fin 0) (st\<lparr>has_been_run := True\<rparr>) = Some (r, st1)"
    by (simp add: edmonds_karp_def assert_has_not_already_been_run_def)
  from edmonds_karp_while_frame[OF this] False show ?thesis by (auto simp: frame_def)
qed

lemma dinic_outcome:
  assumes "dinic lim s t st = Some (r, st1)"
  shows "has_been_run st1 \<and> (r = Inl RerunError \<longleftrightarrow> has_been_run st) \<and>
    (has_been_run st \<longrightarrow> st1 = st)"
proof (cases "has_been_run st")
  case True
  with assms show ?thesis
    by (auto simp: dinic_def assert_has_not_already_been_run_def)
next
  case False
  with assms have "dinic_while lim s t (Fin 0) (st\<lparr>has_been_run := True\<rparr>) = Some (r, st1)"
    by (simp add: dinic_def assert_has_not_already_been_run_def)
  from dinic_while_frame[OF this] False show ?thesis by (auto simp: frame_def)
qed

lemma rerun_raises:
  "has_been_run st \<Longrightarrow> edmonds_karp lim s t st = Some (Inl RerunError, st)"
  "has_been_run st \<Longrightarrow> dinic lim s t st = Some (Inl RerunError, st)"
  by (simp_all add: edmonds_karp_def dinic_def assert_has_not_already_been_run_def)

subsection \<open>Float arithmetic on known values\<close>

text \<open>The float arithmetic on values that Python prints: \<^verbatim>\<open>0.1 + 0.2\<close> is
  \<^verbatim>\<open>0.30000000000000004\<close>, \<^verbatim>\<open>0.9 - 0.3\<close> is \<^verbatim>\<open>0.6000000000000001\<close>, adding \<^verbatim>\<open>0.3\<close> to
  that gives \<^verbatim>\<open>0.9000000000000001\<close>, \<^verbatim>\<open>0.1 + 0.7\<close> is \<^verbatim>\<open>0.7999999999999999\<close> and
  \<^verbatim>\<open>0.3 + 0.5\<close> is \<^verbatim>\<open>0.8\<close>; \<^verbatim>\<open>0.9\<close> is \<open>8106479329266893 * 2 ^ -53\<close>; and
  \<open>2 ^ 53 + 1\<close>, half way between two floats, becomes \<open>2 ^ 53\<close>.\<close>

lemma float_arithmetic_examples:
  "float_of_ratio 1 10 + float_of_ratio 2 10 =
     float_of_ratio 30000000000000004 100000000000000000"
  "float_of_ratio 9 10 - float_of_ratio 3 10 =
     float_of_ratio 6000000000000001 10000000000000000"
  "float_of_ratio 3 10 + float_of_ratio 6000000000000001 10000000000000000 =
     float_of_ratio 9000000000000001 10000000000000000"
  "float_of_ratio 1 10 + float_of_ratio 7 10 =
     float_of_ratio 7999999999999999 10000000000000000"
  "float_of_ratio 3 10 + float_of_ratio 5 10 = float_of_ratio 8 10"
  "float_of_ratio 9 10 = Dbl 8106479329266893 (- 53)"
  "float_of_ratio 9000000000000001 10000000000000000 = Dbl 8106479329266894 (- 53)"
  "float_of_ratio (2 ^ 53 + 1) 1 = float_of_ratio (2 ^ 53) 1"
  "float_of_ratio (2 ^ 53 + 3) 1 = float_of_ratio (2 ^ 53 + 4) 1"
  "float_of_ratio 9 10 < float_of_ratio 9000000000000001 10000000000000000"
  "float_of_ratio 3 10 - float_of_ratio 3 10 = 0"
  by code_simp+

subsection \<open>Indices, pairs and well-formed graphs\<close>

lemma xor1_cases: "(i::int) XOR 1 = (if even i then i + 1 else i - 1)"
  by (simp add: xor_one_eq)

lemma xor1_nonneg: "0 \<le> (i::int) \<Longrightarrow> 0 \<le> i XOR 1"
  by simp

lemma xor1_lt: "0 \<le> (i::int) \<Longrightarrow> i < int n \<Longrightarrow> even n \<Longrightarrow> i XOR 1 < int n"
  by (auto simp: xor1_cases elim!: evenE)

lemma xor1_xor1 [simp]: "((i::int) XOR 1) XOR 1 = i"
  by (simp add: xor.assoc)

lemma xor1_neq [simp]: "(i::int) XOR 1 \<noteq> i" "i \<noteq> i XOR 1"
  by (auto simp: xor1_cases)

lemma xor1_inj: "(i::int) XOR 1 = j XOR 1 \<longleftrightarrow> i = j"
  by (auto simp: xor1_cases split: if_splits)

lemma py_get_in: "0 \<le> i \<Longrightarrow> i < int (length xs) \<Longrightarrow> py_get xs i = Some (xs ! nat i)"
  by (simp add: py_get_def py_pos_def)

lemma py_update_in:
  "0 \<le> i \<Longrightarrow> i < int (length xs) \<Longrightarrow> py_update xs i f = Some (xs[nat i := f (xs ! nat i)])"
  by (simp add: py_update_def py_pos_def)

lemma py_set_in:
  "0 \<le> i \<Longrightarrow> i < int (length xs) \<Longrightarrow> py_set xs i v = Some (xs[nat i := v])"
  by (simp add: py_set_def py_update_in)

lemma py_get_mem: "py_get xs i = Some x \<Longrightarrow> x \<in> set xs"
  by (auto simp: py_get_def py_pos_def split: if_splits)

lemma shape_length: "shape el1 = shape el \<Longrightarrow> length el1 = length el"
  by (metis length_map shape_def)

lemma shape_nth:
  fixes el :: "'n edge list"
  assumes "shape el1 = shape el" "i < length el"
  shows "fst (el1 ! i) = fst (el ! i) \<and> fst (snd (el1 ! i)) = fst (snd (el ! i))"
proof -
  let ?f = "\<lambda>(v :: int, cap :: 'n, fl :: 'n). (v, cap)"
  from assms(2) shape_length[OF assms(1)] have l: "i < length el1" by simp
  from assms(1) have "map ?f el1 ! i = map ?f el ! i" by (simp add: shape_def)
  with l assms(2) have "?f (el1 ! i) = ?f (el ! i)" by (simp only: nth_map)
  then show ?thesis by (cases "el1 ! i"; cases "el ! i") simp
qed

lemma shape_hd_of:
  assumes "shape el1 = shape el" "0 \<le> i" "i < int (length el)"
  shows "hd_of el1 i = hd_of el i"
proof -
  from assms(2,3) have "nat i < length el" by simp
  from shape_nth[OF assms(1) this] show ?thesis by (simp add: hd_of_def)
qed

lemma shape_cap_of:
  assumes "shape el1 = shape el" "0 \<le> i" "i < int (length el)"
  shows "cap_of el1 i = cap_of el i"
proof -
  from assms(2,3) have "nat i < length el" by simp
  from shape_nth[OF assms(1) this] show ?thesis by (simp add: cap_of_def)
qed

lemma wf_graphD:
  assumes "wf_graph st"
  shows "0 \<le> vertices st" "length (adjacency_list st) = nat (vertices st)"
    "even (length (edge_list st))"
    "\<And>i. 0 \<le> i \<Longrightarrow> i < int (length (edge_list st)) \<Longrightarrow>
        0 \<le> hd_of (edge_list st) i \<and> hd_of (edge_list st) i < vertices st"
    "\<And>u. 0 \<le> u \<Longrightarrow> u < vertices st \<Longrightarrow> distinct (adjacency_list st ! nat u)"
    "\<And>u. 0 \<le> u \<Longrightarrow> u < vertices st \<Longrightarrow> set (adjacency_list st ! nat u) =
          {i. 0 \<le> i \<and> i < int (length (edge_list st)) \<and> hd_of (edge_list st) (i XOR 1) = u}"
  using assms unfolding wf_graph_def by blast+

lemma wf_graphI:
  assumes "0 \<le> vertices st" "length (adjacency_list st) = nat (vertices st)"
    "even (length (edge_list st))"
    "\<And>i. 0 \<le> i \<Longrightarrow> i < int (length (edge_list st)) \<Longrightarrow>
        0 \<le> hd_of (edge_list st) i \<and> hd_of (edge_list st) i < vertices st"
    "\<And>u. 0 \<le> u \<Longrightarrow> u < vertices st \<Longrightarrow> distinct (adjacency_list st ! nat u)"
    "\<And>u. 0 \<le> u \<Longrightarrow> u < vertices st \<Longrightarrow> set (adjacency_list st ! nat u) =
          {i. 0 \<le> i \<and> i < int (length (edge_list st)) \<and> hd_of (edge_list st) (i XOR 1) = u}"
  shows "wf_graph st"
  unfolding wf_graph_def using assms by blast

lemma wf_graph_shape:
  assumes wf: "wf_graph st" and fr: "frame st st1"
  shows "wf_graph st1"
proof -
  from fr have sh: "shape (edge_list st1) = shape (edge_list st)"
    by (simp add: frame_def)
  from fr shape_length[OF sh]
  have eq: "vertices st1 = vertices st" "adjacency_list st1 = adjacency_list st"
    "length (edge_list st1) = length (edge_list st)"
    by (simp_all add: frame_def)
  note ev = wf_graphD(3)[OF wf]
  have h: "hd_of (edge_list st1) i = hd_of (edge_list st) i"
    if "0 \<le> i" "i < int (length (edge_list st))" for i
    using sh that by (rule shape_hd_of)
  have hx: "hd_of (edge_list st1) (i XOR 1) = hd_of (edge_list st) (i XOR 1)"
    if "0 \<le> i" "i < int (length (edge_list st))" for i
  proof (rule h)
    show "0 \<le> i XOR 1" using that(1) by simp
    show "i XOR 1 < int (length (edge_list st))" using that ev by (rule xor1_lt)
  qed
  show ?thesis
  proof (rule wf_graphI)
    show "0 \<le> vertices st1" using wf_graphD(1)[OF wf] eq by simp
    show "length (adjacency_list st1) = nat (vertices st1)" using wf_graphD(2)[OF wf] eq by simp
    show "even (length (edge_list st1))" using ev eq by simp
  next
    fix i assume "0 \<le> i" "i < int (length (edge_list st1))"
    then have i: "0 \<le> i" "i < int (length (edge_list st))" using eq by simp_all
    from wf_graphD(4)[OF wf i] h[OF i] eq
    show "0 \<le> hd_of (edge_list st1) i \<and> hd_of (edge_list st1) i < vertices st1" by simp
  next
    fix u assume "0 \<le> u" "u < vertices st1"
    then have u: "0 \<le> u" "u < vertices st" using eq by simp_all
    from wf_graphD(5)[OF wf u] eq show "distinct (adjacency_list st1 ! nat u)" by simp
    have "{i. 0 \<le> i \<and> i < int (length (edge_list st)) \<and> hd_of (edge_list st1) (i XOR 1) = u} =
      {i. 0 \<le> i \<and> i < int (length (edge_list st)) \<and> hd_of (edge_list st) (i XOR 1) = u}"
      using hx by (intro Collect_cong) auto
    with wf_graphD(6)[OF wf u] eq
    show "set (adjacency_list st1 ! nat u) =
          {i. 0 \<le> i \<and> i < int (length (edge_list st1)) \<and> hd_of (edge_list st1) (i XOR 1) = u}"
      by simp
  qed
qed

subsection \<open>Graphs built by edge insertion\<close>

lemma hd_of_append_old:
  "0 \<le> i \<Longrightarrow> i < int (length el) \<Longrightarrow> hd_of (el @ xs) i = hd_of el i"
proof -
  assume "0 \<le> i" "i < int (length el)"
  then have "nat i < length el" by simp
  then show ?thesis by (simp add: hd_of_def nth_append)
qed

lemma hd_of_append_new0: "hd_of (el @ [a, b]) (int (length el)) = fst a"
  by (simp add: hd_of_def nth_append)

lemma hd_of_append_new1: "hd_of (el @ [a, b]) (int (length el) + 1) = fst b"
  by (simp add: hd_of_def nth_append nat_add_distrib)

lemma xor1_even_len: "even n \<Longrightarrow> int n XOR 1 = int n + 1"
  by (simp add: xor1_cases)

lemma xor1_even_len1: "even n \<Longrightarrow> (int n + 1) XOR 1 = int n"
  by (simp add: xor1_cases)

lemma add_edge_unfold:
  assumes "u \<noteq> v" "0 \<le> u" "u < int (length (adjacency_list st))"
    "0 \<le> v" "v < int (length (adjacency_list st))"
  shows "add_edge u v c d st =
    (Inr (), st\<lparr>edge_list := edge_list st @ [(v, c, 0), (u, if d then 0 else c, 0)],
        adjacency_list := (adjacency_list st)
          [nat u := adjacency_list st ! nat u @ [int (length (edge_list st))],
           nat v := adjacency_list st ! nat v @ [int (length (edge_list st)) + 1]]\<rparr>)"
proof -
  from assms have nuv: "nat u \<noteq> nat v" by simp
  from assms show ?thesis
    by (simp add: add_edge_def Let_def py_update_in nuv add.commute)
qed

lemma add_edge_wf:
  assumes wf: "wf_graph st" and u: "0 \<le> u" "u < vertices st" and v: "0 \<le> v" "v < vertices st"
  shows "\<exists>st1. add_edge u v c d st = (Inr (), st1) \<and> wf_graph st1 \<and>
     vertices st1 = vertices st \<and> (fresh st \<longrightarrow> fresh st1) \<and>
     (caps_nonneg (edge_list st) \<longrightarrow> 0 \<le> c \<longrightarrow> caps_nonneg (edge_list st1))"
proof (cases "u = v")
  case True
  with wf show ?thesis by (simp add: add_edge_def)
next
  case False
  define el where "el = edge_list st"
  define E where "E = int (length el)"
  define c' where "c' = (if d then 0 else c)"
  define el1 where "el1 = el @ [(v, c, 0), (u, c', 0)]"
  define adj where "adj = adjacency_list st"
  define adj1 where "adj1 = adj[nat u := adj ! nat u @ [E], nat v := adj ! nat v @ [E + 1]]"
  define st1 where "st1 = st\<lparr>edge_list := el1, adjacency_list := adj1\<rparr>"
  note ev = wf_graphD(3)[OF wf, folded el_def]
  have len: "length adj = nat (vertices st)" using wf_graphD(2)[OF wf] by (simp add: adj_def)
  have run: "add_edge u v c d st = (Inr (), st1)"
    using add_edge_unfold[of u v st c d] False u v len
    by (simp add: st1_def el1_def adj1_def adj_def E_def el_def c'_def)
  have len1: "int (length el1) = E + 2" by (simp add: el1_def E_def)
  have nuv: "nat u \<noteq> nat v" using False u v by simp
  have nu: "nat u < length adj" and nv: "nat v < length adj" using u v len by simp_all
  have hold: "hd_of el1 i = hd_of el i" if "0 \<le> i" "i < E" for i
    using that unfolding el1_def E_def by (rule hd_of_append_old)
  have hE: "hd_of el1 E = v" unfolding el1_def E_def by (simp add: hd_of_append_new0)
  have hE1: "hd_of el1 (E + 1) = u" unfolding el1_def E_def by (simp add: hd_of_append_new1)
  have xE: "E XOR 1 = E + 1" unfolding E_def using ev by (rule xor1_even_len)
  have xE1: "(E + 1) XOR 1 = E" unfolding E_def using ev by (rule xor1_even_len1)
  have xold: "0 \<le> i XOR 1 \<and> i XOR 1 < E" if "0 \<le> i" "i < E" for i
    using that ev xor1_lt[of i "length el"] by (simp add: E_def)
  have tl: "hd_of el1 (i XOR 1) = hd_of el (i XOR 1)" if "0 \<le> i" "i < E" for i
    using xold[OF that] by (intro hold) simp_all
  have S: "{i. 0 \<le> i \<and> i < E + 2 \<and> hd_of el1 (i XOR 1) = w} =
      {i. 0 \<le> i \<and> i < E \<and> hd_of el (i XOR 1) = w} \<union> (if u = w then {E} else {}) \<union>
      (if v = w then {E + 1} else {})" (is "?L = ?R") for w
  proof (rule set_eqI)
    fix i
    consider "i < 0" | "0 \<le> i" "i < E" | "i = E" | "i = E + 1" | "E + 2 \<le> i" by linarith
    then show "i \<in> ?L \<longleftrightarrow> i \<in> ?R"
    proof cases
      case 1
      then show ?thesis using E_def by auto
    next
      case 2
      then show ?thesis using tl[OF 2] by auto
    next
      case 3
      then show ?thesis using xE hE1 E_def by auto
    next
      case 4
      then show ?thesis using xE1 hE E_def by auto
    next
      case 5
      then show ?thesis by auto
    qed
  qed
  have adj1_nth: "adj1 ! nat w = adj ! nat w @ (if w = u then [E] else []) @ (if w = v then [E + 1] else [])"
    if "0 \<le> w" "w < vertices st" for w
  proof -
    from that len have "nat w < length adj" by simp
    with that u v False show ?thesis
      by (auto simp: adj1_def nth_list_update)
  qed
  have wf1: "wf_graph st1"
  proof (rule wf_graphI)
    show "0 \<le> vertices st1" using wf_graphD(1)[OF wf] by (simp add: st1_def)
    show "length (adjacency_list st1) = nat (vertices st1)" using len by (simp add: st1_def adj1_def)
    show "even (length (edge_list st1))" using ev by (simp add: st1_def el1_def)
  next
    fix i assume i: "0 \<le> i" "i < int (length (edge_list st1))"
    then have "i < E + 2" using len1 by (simp add: st1_def)
    then consider "i < E" | "i = E" | "i = E + 1" by linarith
    then show "0 \<le> hd_of (edge_list st1) i \<and> hd_of (edge_list st1) i < vertices st1"
    proof cases
      case 1
      with i(1) wf_graphD(4)[OF wf, of i] hold[of i] show ?thesis
        by (simp add: st1_def E_def el_def)
    next
      case 2
      then show ?thesis using hE v by (simp add: st1_def)
    next
      case 3
      then show ?thesis using hE1 u by (simp add: st1_def)
    qed
  next
    fix w assume "0 \<le> w" "w < vertices st1"
    then have w: "0 \<le> w" "w < vertices st" by (simp_all add: st1_def)
    have old: "set (adj ! nat w) = {i. 0 \<le> i \<and> i < E \<and> hd_of el (i XOR 1) = w}"
      using wf_graphD(6)[OF wf w] by (simp add: adj_def E_def el_def)
    have dold: "distinct (adj ! nat w)" using wf_graphD(5)[OF wf w] by (simp add: adj_def)
    from old have notin: "E \<notin> set (adj ! nat w)" "E + 1 \<notin> set (adj ! nat w)" by auto
    show "distinct (adjacency_list st1 ! nat w)"
      using dold notin False by (auto simp add: st1_def adj1_nth[OF w])
    show "set (adjacency_list st1 ! nat w) =
        {i. 0 \<le> i \<and> i < int (length (edge_list st1)) \<and> hd_of (edge_list st1) (i XOR 1) = w}"
      using old S[of w] len1 by (auto simp add: st1_def adj1_nth[OF w])
  qed
  have fr: "fresh st \<longrightarrow> fresh st1"
    by (auto simp: fresh_def st1_def el1_def el_def)
  have cn: "caps_nonneg (edge_list st) \<longrightarrow> 0 \<le> c \<longrightarrow> caps_nonneg (edge_list st1)"
    by (auto simp: caps_nonneg_def st1_def el1_def el_def c'_def)
  from run wf1 fr cn show ?thesis by (auto simp: st1_def)
qed

lemma add_edges_wf:
  assumes "wf_graph st" "valid_edges (vertices st) es"
  shows "\<exists>st1. add_edges es st = (Inr (), st1) \<and> wf_graph st1 \<and>
     vertices st1 = vertices st \<and> (fresh st \<longrightarrow> fresh st1) \<and>
     (caps_nonneg (edge_list st) \<longrightarrow> nonneg_caps es \<longrightarrow> caps_nonneg (edge_list st1))"
  using assms
proof (induction es arbitrary: st)
  case Nil
  then show ?case by simp
next
  case (Cons e es)
  obtain u v c d where e: "e = (u, v, c, d)" by (cases e) auto
  from Cons.prems(2) e have uv: "0 \<le> u" "u < vertices st" "0 \<le> v" "v < vertices st"
    and rest: "valid_edges (vertices st) es"
    by (simp_all add: valid_edges_def)
  from add_edge_wf[OF Cons.prems(1) uv, of c d] obtain st1 where
    s1: "add_edge u v c d st = (Inr (), st1)" "wf_graph st1" "vertices st1 = vertices st"
      "fresh st \<longrightarrow> fresh st1"
      "caps_nonneg (edge_list st) \<longrightarrow> 0 \<le> c \<longrightarrow> caps_nonneg (edge_list st1)"
    by blast
  from rest s1(3) have "valid_edges (vertices st1) es" by simp
  from Cons.IH[OF s1(2) this] obtain st2 where
    s2: "add_edges es st1 = (Inr (), st2)" "wf_graph st2" "vertices st2 = vertices st1"
      "fresh st1 \<longrightarrow> fresh st2"
      "caps_nonneg (edge_list st1) \<longrightarrow> nonneg_caps es \<longrightarrow> caps_nonneg (edge_list st2)"
    by blast
  have "add_edges (e # es) st = (Inr (), st2)" using s1(1) s2(1) e by simp
  moreover have "caps_nonneg (edge_list st) \<longrightarrow> nonneg_caps (e # es) \<longrightarrow> caps_nonneg (edge_list st2)"
    using s1(5) s2(5) e by (simp add: nonneg_caps_def)
  ultimately show ?case using s1 s2 by auto
qed

lemma init_wf: "0 \<le> V \<Longrightarrow> wf_graph (init V)"
  by (rule wf_graphI) (simp_all add: init_def)

lemma build_wf:
  assumes "0 \<le> V" "valid_edges V es" "build V es = (r, g)"
  shows "r = Inr () \<and> wf_graph g \<and> vertices g = V \<and> fresh g \<and>
    (nonneg_caps es \<longrightarrow> caps_nonneg (edge_list g))"
proof -
  let ?g = "init V :: int MaximumFlow"
  have v: "vertices ?g = V" by (simp add: init_def)
  have f: "fresh ?g" "caps_nonneg (edge_list ?g)"
    by (simp_all add: fresh_def caps_nonneg_def init_def)
  from add_edges_wf[OF init_wf[OF assms(1)], of es] assms(2) v
  obtain st1 where "add_edges es ?g = (Inr (), st1)" "wf_graph st1"
      "vertices st1 = vertices ?g" "fresh ?g \<longrightarrow> fresh st1"
      "caps_nonneg (edge_list ?g) \<longrightarrow> nonneg_caps es \<longrightarrow> caps_nonneg (edge_list st1)"
    by auto
  with assms(3) v f show ?thesis by (simp add: build_def)
qed

subsection \<open>A single paired update\<close>

lemma flow_of_update:
  assumes "k < length el"
  shows "flow_of (el[k := (h, c, x)]) j = (if nat j = k then x else flow_of el j)"
  using assms by (simp add: flow_of_def nth_list_update)

lemma cap_of_update_same:
  assumes "k < length el"
  shows "cap_of (el[k := (fst (el ! k), fst (snd (el ! k)), x)]) j = cap_of el j"
  using assms by (simp add: cap_of_def nth_list_update)

lemma push_flow_ok:
  assumes wf: "wf_graph st" and idx: "0 \<le> idx" "idx < int (length (edge_list st))"
  shows "\<exists>st1. push_flow idx fl p st = (Inr (), st1) \<and> frame st st1 \<and>
     distances st1 = distances st \<and> points st1 = points st \<and> last_arc st1 = last_arc st \<and>
     trace st1 = edge_list st1 # trace st \<and>
     (\<forall>j. 0 \<le> j \<and> j < int (length (edge_list st)) \<longrightarrow>
        flow_of (edge_list st1) j =
          (if j = idx XOR 1 then flow_of (edge_list st) j - p
           else if j = idx then fl + p else flow_of (edge_list st) j))"
proof -
  define el where "el = edge_list st"
  define k where "k = nat idx"
  define k' where "k' = nat (idx XOR 1)"
  have x: "0 \<le> idx XOR 1" "idx XOR 1 < int (length el)"
    using idx wf_graphD(3)[OF wf] xor1_lt[of idx "length el"] by (simp_all add: el_def)
  have k: "k < length el" and k': "k' < length el" and kk: "k \<noteq> k'"
    using idx x xor1_neq(1)[of idx] by (simp_all add: k_def k'_def el_def nat_eq_iff)
  obtain h c f0 where e: "el ! k = (h, c, f0)" by (cases "el ! k") auto
  obtain h' c' f' where e': "el ! k' = (h', c', f')" by (cases "el ! k'") auto
  define el1 where "el1 = el[k := (h, c, fl + p)]"
  define el2 where "el2 = el1[k' := (h', c', f' - p)]"
  have u1: "py_update el idx (\<lambda>(v, cap, _). (v, cap, fl + p)) = Some el1"
    using idx e by (simp add: py_update_in el_def[symmetric] k_def[symmetric] el1_def)
  have e1': "el1 ! k' = (h', c', f')" using e' kk k' by (simp add: el1_def)
  have u2: "py_update el1 (idx XOR 1) (\<lambda>(v, cap, fl). (v, cap, fl - p)) = Some el2"
    using x e1' by (simp add: py_update_in el1_def k'_def[symmetric] el2_def)
  define st1 where "st1 = st\<lparr>edge_list := el2, trace := el2 # trace st\<rparr>"
  have run: "push_flow idx fl p st = (Inr (), st1)"
    using u1 u2 by (simp add: push_flow_def el_def[symmetric] st1_def)
  have fl2: "flow_of el2 j = (if j = idx XOR 1 then flow_of el j - p
           else if j = idx then fl + p else flow_of el j)"
    if j: "0 \<le> j" "j < int (length el)" for j
  proof -
    have a: "nat j = k' \<longleftrightarrow> j = idx XOR 1" using j idx by (simp add: k'_def eq_nat_nat_iff)
    have b: "nat j = k \<longleftrightarrow> j = idx" using j idx by (simp add: k_def eq_nat_nat_iff)
    have l1: "k' < length el1" using k' by (simp add: el1_def)
    have "flow_of el j = f'" if "j = idx XOR 1"
      using that e' by (simp add: flow_of_def k'_def)
    moreover have "flow_of el2 j = (if nat j = k' then f' - p else flow_of el1 j)"
      unfolding el2_def by (rule flow_of_update[OF l1])
    moreover have "flow_of el1 j = (if nat j = k then fl + p else flow_of el j)"
      unfolding el1_def by (rule flow_of_update[OF k])
    ultimately show ?thesis using a b by simp
  qed
  from push_flow_frame[OF run] run fl2 show ?thesis
    by (auto simp: st1_def el_def)
qed

lemma xor1_swap: "((i::int) XOR 1 = j) = (i = j XOR 1)"
  using xor1_inj[of i "j XOR 1"] by simp

lemma push_flow_pushed:
  assumes wf: "wf_graph st" and idx: "0 \<le> idx" "idx < int (length (edge_list st))"
    and fl: "fl = flow_of (edge_list st) idx"
  shows "\<exists>st1. push_flow idx fl p st = (Inr (), st1) \<and> frame st st1 \<and>
     distances st1 = distances st \<and> points st1 = points st \<and> last_arc st1 = last_arc st \<and>
     trace st1 = edge_list st1 # trace st \<and>
     flows_pushed (edge_list st) (edge_list st1) idx p"
proof -
  from push_flow_ok[OF wf idx, of fl p] obtain st1 where
    r: "push_flow idx fl p st = (Inr (), st1)" "frame st st1"
     "distances st1 = distances st" "points st1 = points st" "last_arc st1 = last_arc st"
     "trace st1 = edge_list st1 # trace st"
    and f: "\<And>j. 0 \<le> j \<Longrightarrow> j < int (length (edge_list st)) \<Longrightarrow>
        flow_of (edge_list st1) j =
          (if j = idx XOR 1 then flow_of (edge_list st) j - p
           else if j = idx then fl + p else flow_of (edge_list st) j)"
    by blast
  have "flows_pushed (edge_list st) (edge_list st1) idx p"
    unfolding flows_pushed_def
  proof (intro conjI allI impI)
    show "shape (edge_list st1) = shape (edge_list st)" using r(2) by (simp add: frame_def)
  next
    fix j assume "0 \<le> j \<and> j < int (length (edge_list st))"
    then have "flow_of (edge_list st1) j =
          (if j = idx XOR 1 then flow_of (edge_list st) j - p
           else if j = idx then fl + p else flow_of (edge_list st) j)" using f by blast
    then show "flow_of (edge_list st1) j = flow_of (edge_list st) j + (if j = idx then p else 0)
        - (if j = idx XOR 1 then p else 0)"
      using fl by auto
  qed
  with r show ?thesis by blast
qed

lemma flows_pushed_antisym:
  assumes "flows_pushed el el1 idx p" "antisym el" "even (length el)"
  shows "antisym el1"
  unfolding antisym_def
proof (intro allI impI)
  fix i assume "0 \<le> i \<and> i < int (length el1)"
  with assms(1) shape_length[of el1 el] have i: "0 \<le> i" "i < int (length el)"
    by (simp_all add: flows_pushed_def)
  then have x: "0 \<le> i XOR 1" "i XOR 1 < int (length el)"
    using assms(3) xor1_lt[of i "length el"] by simp_all
  from assms(1) i have a: "flow_of el1 i = flow_of el i + (if i = idx then p else 0)
      - (if i = idx XOR 1 then p else 0)"
    unfolding flows_pushed_def by blast
  from assms(1) x have b: "flow_of el1 (i XOR 1) = flow_of el (i XOR 1)
     + (if i XOR 1 = idx then p else 0) - (if i XOR 1 = idx XOR 1 then p else 0)"
    unfolding flows_pushed_def by blast
  have c: "i XOR 1 = idx \<longleftrightarrow> i = idx XOR 1" by (rule xor1_swap)
  from assms(2) i have "flow_of el (i XOR 1) = - flow_of el i" by (simp add: antisym_def)
  with a b c show "flow_of el1 (i XOR 1) = - flow_of el1 i" by (simp add: xor1_inj)
qed

lemma flows_pushed_cap_ok:
  assumes "flows_pushed el el1 idx p" "cap_ok el" "even (length el)"
    "0 \<le> p" "p \<le> cap_of el idx - flow_of el idx"
  shows "cap_ok el1"
  unfolding cap_ok_def
proof (intro allI impI)
  fix i assume "0 \<le> i \<and> i < int (length el1)"
  with assms(1) shape_length[of el1 el] have i: "0 \<le> i" "i < int (length el)"
    by (simp_all add: flows_pushed_def)
  from assms(1) i have a: "flow_of el1 i = flow_of el i + (if i = idx then p else 0)
      - (if i = idx XOR 1 then p else 0)"
    unfolding flows_pushed_def by blast
  from assms(1) have "shape el1 = shape el" by (simp add: flows_pushed_def)
  from shape_cap_of[OF this i] have c: "cap_of el1 i = cap_of el i" .
  from assms(2) i have "flow_of el i \<le> cap_of el i" by (simp add: cap_ok_def)
  with a c assms(4,5) show "flow_of el1 i \<le> cap_of el1 i" by auto
qed

lemma flow_out_sum:
  assumes wf: "wf_graph st" and w: "0 \<le> w" "w < vertices st"
  shows "flow_out st w = (\<Sum>i \<in> set (adjacency_list st ! nat w). flow_of (edge_list st) i)"
  unfolding flow_out_def using wf_graphD(5)[OF wf w]
  by (rule sum_list_distinct_conv_sum_set)

lemma flow_out_pushed:
  assumes wf: "wf_graph st" and fr: "frame st st1"
    and fp: "flows_pushed (edge_list st) (edge_list st1) idx p"
    and idx: "0 \<le> idx" "idx < int (length (edge_list st))"
    and w: "0 \<le> w" "w < vertices st"
  shows "flow_out st1 w = flow_out st w
      + (if hd_of (edge_list st) (idx XOR 1) = w then p else 0)
      - (if hd_of (edge_list st) idx = w then p else 0)"
proof -
  define el where "el = edge_list st"
  define el1 where "el1 = edge_list st1"
  define A where "A = set (adjacency_list st ! nat w)"
  note wf1 = wf_graph_shape[OF wf fr]
  from fr have eq: "vertices st1 = vertices st" "adjacency_list st1 = adjacency_list st"
    by (simp_all add: frame_def)
  have A: "A = {i. 0 \<le> i \<and> i < int (length el) \<and> hd_of el (i XOR 1) = w}"
    using wf_graphD(6)[OF wf w] by (simp add: A_def el_def)
  have fin: "finite A" by (simp add: A_def)
  have x: "0 \<le> idx XOR 1" "idx XOR 1 < int (length el)"
    using idx wf_graphD(3)[OF wf] xor1_lt[of idx "length el"] by (simp_all add: el_def)
  have m1: "idx \<in> A \<longleftrightarrow> hd_of el (idx XOR 1) = w" using idx by (simp add: A el_def)
  have m2: "idx XOR 1 \<in> A \<longleftrightarrow> hd_of el idx = w" using x by (simp add: A)
  have f1: "flow_of el1 i = flow_of el i + (if i = idx then p else 0) - (if i = idx XOR 1 then p else 0)"
    if "i \<in> A" for i
    using that fp unfolding flows_pushed_def A el_def el1_def by blast
  have "flow_out st1 w = (\<Sum>i \<in> A. flow_of el1 i)"
    using flow_out_sum[OF wf1, of w] w eq by (simp add: A_def el1_def)
  also have "\<dots> = (\<Sum>i \<in> A. flow_of el i + (if i = idx then p else 0) - (if i = idx XOR 1 then p else 0))"
    by (rule sum.cong) (simp_all add: f1)
  also have "\<dots> = (\<Sum>i \<in> A. flow_of el i) + (\<Sum>i \<in> A. if i = idx then p else 0)
      - (\<Sum>i \<in> A. if i = idx XOR 1 then p else 0)"
    by (simp add: sum.distrib sum_subtractf)
  also have "(\<Sum>i \<in> A. if i = idx then p else 0) = (if idx \<in> A then p else 0)"
    using fin by (rule sum.delta)
  also have "(\<Sum>i \<in> A. if i = idx XOR 1 then p else 0) = (if idx XOR 1 \<in> A then p else 0)"
    using fin by (rule sum.delta)
  also have "(\<Sum>i \<in> A. flow_of el i) = flow_out st w"
    using flow_out_sum[OF wf w] by (simp add: A_def el_def)
  finally show ?thesis unfolding m1 m2 el_def .
qed

subsection \<open>The level builder on a well-formed graph\<close>

lemma bfs_treeD:
  assumes "bfs_tree s st"
  shows "length (distances st) = nat (vertices st)" "length (points st) = nat (vertices st)"
    "0 \<le> s" "s < vertices st" "dist_of st s = 0"
    "\<And>v. 0 \<le> v \<Longrightarrow> v < vertices st \<Longrightarrow> - 1 \<le> dist_of st v"
    "\<And>v. 0 \<le> v \<Longrightarrow> v < vertices st \<Longrightarrow> v \<noteq> s \<Longrightarrow> dist_of st v \<noteq> - 1 \<Longrightarrow> parent_ok st v"
    "\<And>v d. 0 \<le> v \<Longrightarrow> v < vertices st \<Longrightarrow> dist_of st v \<noteq> - 1 \<Longrightarrow> 0 \<le> d \<Longrightarrow>
        d \<le> dist_of st v \<Longrightarrow> \<exists>w. 0 \<le> w \<and> w < vertices st \<and> dist_of st w = d"
  using assms unfolding bfs_tree_def by blast+

lemma bfs_treeI:
  assumes "length (distances st) = nat (vertices st)" "length (points st) = nat (vertices st)"
    "0 \<le> s" "s < vertices st" "dist_of st s = 0"
    "\<And>v. 0 \<le> v \<Longrightarrow> v < vertices st \<Longrightarrow> - 1 \<le> dist_of st v"
    "\<And>v. 0 \<le> v \<Longrightarrow> v < vertices st \<Longrightarrow> v \<noteq> s \<Longrightarrow> dist_of st v \<noteq> - 1 \<Longrightarrow> parent_ok st v"
    "\<And>v d. 0 \<le> v \<Longrightarrow> v < vertices st \<Longrightarrow> dist_of st v \<noteq> - 1 \<Longrightarrow> 0 \<le> d \<Longrightarrow>
        d \<le> dist_of st v \<Longrightarrow> \<exists>w. 0 \<le> w \<and> w < vertices st \<and> dist_of st w = d"
  shows "bfs_tree s st"
  unfolding bfs_tree_def using assms by blast

lemma edge_triple:
  "el ! nat i = (hd_of el i, cap_of el i, flow_of el i)"
  by (simp add: hd_of_def cap_of_def flow_of_def)

lemma BFS_for_step:
  assumes idx: "0 \<le> idx" "idx < int (length (edge_list st))"
    and v: "0 \<le> hd_of (edge_list st) idx" "hd_of (edge_list st) idx < vertices st"
    and u: "0 \<le> u" "u < vertices st"
    and len: "length (distances st) = nat (vertices st)" "length (points st) = nat (vertices st)"
  shows "BFS_for u (idx # rest) q st =
    (if 0 < resid (edge_list st) idx \<and> dist_of st (hd_of (edge_list st) idx) = - 1
     then BFS_for u rest (q @ [hd_of (edge_list st) idx])
        (st\<lparr>distances := (distances st)[nat (hd_of (edge_list st) idx) := dist_of st u + 1],
            points := (points st)[nat (hd_of (edge_list st) idx) := (u, idx)]\<rparr>)
     else BFS_for u rest q st)"
proof -
  have g: "py_get (edge_list st) idx =
      Some (hd_of (edge_list st) idx, cap_of (edge_list st) idx, flow_of (edge_list st) idx)"
    using idx by (simp add: py_get_in edge_triple)
  have dv: "py_get (distances st) (hd_of (edge_list st) idx) = Some (dist_of st (hd_of (edge_list st) idx))"
    using v len by (simp add: py_get_in dist_of_def)
  have du: "py_get (distances st) u = Some (dist_of st u)"
    using u len by (simp add: py_get_in dist_of_def)
  have sd: "py_set (distances st) (hd_of (edge_list st) idx) x =
      Some ((distances st)[nat (hd_of (edge_list st) idx) := x])" for x
    using v len by (simp add: py_set_in)
  have sp: "py_set (points st) (hd_of (edge_list st) idx) x =
      Some ((points st)[nat (hd_of (edge_list st) idx) := x])" for x
    using v len by (simp add: py_set_in)
  show ?thesis
    by (simp add: g dv du sd sp resid_def)
qed

declare BFS_for.simps(2) [simp del]

lemma visit_fields [simp]:
  "vertices (visit st u idx) = vertices st"
  "edge_list (visit st u idx) = edge_list st"
  "adjacency_list (visit st u idx) = adjacency_list st"
  "has_been_run (visit st u idx) = has_been_run st"
  "trace (visit st u idx) = trace st"
  "last_arc (visit st u idx) = last_arc st"
  by (simp_all add: visit_def)

lemma visit_dist:
  assumes "length (distances st) = nat (vertices st)"
    and "0 \<le> hd_of (edge_list st) idx" "hd_of (edge_list st) idx < vertices st" "0 \<le> w"
  shows "dist_of (visit st u idx) w =
    (if w = hd_of (edge_list st) idx then dist_of st u + 1 else dist_of st w)"
proof -
  have "nat (hd_of (edge_list st) idx) = nat w \<longleftrightarrow> w = hd_of (edge_list st) idx"
    using assms by (auto simp add: eq_nat_nat_iff)
  moreover have "nat (hd_of (edge_list st) idx) < length (distances st)" using assms by simp
  ultimately show ?thesis
    by (simp add: dist_of_def visit_def nth_list_update)
qed

lemma visit_points:
  assumes "length (points st) = nat (vertices st)"
    and "0 \<le> hd_of (edge_list st) idx" "hd_of (edge_list st) idx < vertices st" "0 \<le> w"
  shows "points (visit st u idx) ! nat w =
    (if w = hd_of (edge_list st) idx then (u, idx) else points st ! nat w)"
proof -
  have "nat (hd_of (edge_list st) idx) = nat w \<longleftrightarrow> w = hd_of (edge_list st) idx"
    using assms by (auto simp add: eq_nat_nat_iff)
  moreover have "nat (hd_of (edge_list st) idx) < length (points st)" using assms by simp
  ultimately show ?thesis
    by (simp add: visit_def nth_list_update)
qed

lemma visit_tree:
  assumes tree: "bfs_tree s st"
    and u: "0 \<le> u" "u < vertices st" "dist_of st u \<noteq> - 1"
    and idx: "0 \<le> idx" "idx < int (length (edge_list st))"
    and v: "0 \<le> hd_of (edge_list st) idx" "hd_of (edge_list st) idx < vertices st"
    and tl: "hd_of (edge_list st) (idx XOR 1) = u"
    and res: "0 < resid (edge_list st) idx"
    and dv: "dist_of st (hd_of (edge_list st) idx) = - 1"
  shows "bfs_tree s (visit st u idx)"
proof -
  define v where "v = hd_of (edge_list st) idx"
  define st1 where "st1 = visit st u idx"
  note t = bfs_treeD[OF tree]
  have d1: "dist_of st1 w = (if w = v then dist_of st u + 1 else dist_of st w)" if "0 \<le> w" for w
    unfolding st1_def v_def using t(1) v that by (rule visit_dist)
  have p1: "points st1 ! nat w = (if w = v then (u, idx) else points st ! nat w)" if "0 \<le> w" for w
    unfolding st1_def v_def using t(2) v that by (rule visit_points)
  have vs: "v \<noteq> s" using dv t(5) by (auto simp: v_def)
  have vu: "v \<noteq> u" using dv u(3) by (auto simp: v_def)
  have du0: "0 \<le> dist_of st u" using t(6)[OF u(1,2)] u(3) by simp
  have V: "vertices st1 = vertices st" "edge_list st1 = edge_list st" by (simp_all add: st1_def)
  have "bfs_tree s st1"
  proof (rule bfs_treeI)
    show "length (distances st1) = nat (vertices st1)" using t(1) by (simp add: st1_def visit_def)
    show "length (points st1) = nat (vertices st1)" using t(2) by (simp add: st1_def visit_def)
    show "0 \<le> s" "s < vertices st1" using t(3,4) by (simp_all add: V)
    show "dist_of st1 s = 0" using d1[OF t(3)] vs t(5) by simp
  next
    fix w assume w: "0 \<le> w" "w < vertices st1"
    then show "- 1 \<le> dist_of st1 w" using d1[OF w(1)] t(6)[of w] du0 by (simp add: V)
  next
    fix w assume w: "0 \<le> w" "w < vertices st1" "w \<noteq> s" "dist_of st1 w \<noteq> - 1"
    show "parent_ok st1 w"
    proof (cases "w = v")
      case True
      have "dist_of st1 u = dist_of st u" using d1[OF u(1)] vu by simp
      moreover have "dist_of st1 v = dist_of st u + 1" using d1[of v] v by (simp add: v_def)
      ultimately show ?thesis
        using True p1[OF w(1)] u idx tl res by (simp add: parent_ok_def V v_def)
    next
      case False
      then have dw: "dist_of st1 w = dist_of st w" using d1[OF w(1)] by simp
      with w have po: "parent_ok st w" by (intro t(7)) (simp_all add: V)
      obtain pu pidx where pp: "points st ! nat w = (pu, pidx)" by (cases "points st ! nat w") auto
      from po pp have a: "0 \<le> pu" "pu < vertices st" "0 \<le> pidx" "pidx < int (length (edge_list st))"
        "hd_of (edge_list st) pidx = w" "hd_of (edge_list st) (pidx XOR 1) = pu"
        "0 < resid (edge_list st) pidx" "dist_of st pu \<noteq> - 1" "dist_of st w = dist_of st pu + 1"
        by (simp_all add: parent_ok_def)
      have "pu \<noteq> v" using a(8) dv by (auto simp: v_def)
      then have "dist_of st1 pu = dist_of st pu" using d1[OF a(1)] by simp
      with a dw pp p1[OF w(1)] False show ?thesis by (simp add: parent_ok_def V)
    qed
  next
    fix w d assume w: "0 \<le> w" "w < vertices st1" "dist_of st1 w \<noteq> - 1" "0 \<le> d" "d \<le> dist_of st1 w"
    have old: "\<exists>x. 0 \<le> x \<and> x < vertices st1 \<and> dist_of st1 x = d"
      if x: "0 \<le> y" "y < vertices st" "dist_of st y \<noteq> - 1" "d \<le> dist_of st y" for y
    proof -
      from t(8)[OF x(1,2,3) w(4) x(4)] obtain z where
        z: "0 \<le> z" "z < vertices st" "dist_of st z = d" by blast
      then have "z \<noteq> v" using dv w(4) by (auto simp: v_def)
      then have "dist_of st1 z = d" using d1[OF z(1)] z(3) by simp
      with z show ?thesis by (auto simp: V)
    qed
    show "\<exists>x. 0 \<le> x \<and> x < vertices st1 \<and> dist_of st1 x = d"
    proof (cases "w = v")
      case True
      then have dw: "dist_of st1 w = dist_of st u + 1" using d1[OF w(1)] by simp
      show ?thesis
      proof (cases "d = dist_of st u + 1")
        case True
        with dw w show ?thesis by auto
      next
        case False
        with dw w(5) have "d \<le> dist_of st u" by simp
        with u show ?thesis by (intro old[of u])
      qed
    next
      case False
      then have "dist_of st1 w = dist_of st w" using d1[OF w(1)] by simp
      with w show ?thesis by (intro old[of w]) (simp_all add: V)
    qed
  qed
  then show ?thesis by (simp add: st1_def)
qed

lemma unreached_finite: "finite (unreached st)"
proof -
  have "unreached st \<subseteq> {0..<vertices st}" by (auto simp: unreached_def)
  then show ?thesis by (rule finite_subset) simp
qed

lemma visit_unreached:
  assumes tree: "bfs_tree s st"
    and u: "0 \<le> u" "u < vertices st" "dist_of st u \<noteq> - 1"
    and v: "0 \<le> hd_of (edge_list st) idx" "hd_of (edge_list st) idx < vertices st"
    and dv: "dist_of st (hd_of (edge_list st) idx) = - 1"
  shows "Suc (card (unreached (visit st u idx))) = card (unreached st)"
proof -
  define v where "v = hd_of (edge_list st) idx"
  note t = bfs_treeD[OF tree]
  have du0: "0 \<le> dist_of st u" using t(6)[OF u(1,2)] u(3) by simp
  have d1: "dist_of (visit st u idx) w = (if w = v then dist_of st u + 1 else dist_of st w)"
    if "0 \<le> w" for w
    unfolding v_def using t(1) v that by (rule visit_dist)
  have "unreached (visit st u idx) = unreached st - {v}"
  proof (rule set_eqI)
    fix w
    show "w \<in> unreached (visit st u idx) \<longleftrightarrow> w \<in> unreached st - {v}"
    proof (cases "0 \<le> w")
      case True
      from d1[OF True] du0 show ?thesis by (auto simp: unreached_def)
    next
      case False
      then show ?thesis by (simp add: unreached_def)
    qed
  qed
  moreover have "v \<in> unreached st" using v dv by (simp add: unreached_def v_def)
  ultimately show ?thesis
    using card_Suc_Diff1[OF unreached_finite[of st], of v] by simp
qed

lemma closed_for_skip:
  assumes "closed_for st q (insert idx X)"
    and "\<not> (0 < resid (edge_list st) idx \<and> dist_of st (hd_of (edge_list st) idx) = - 1)"
  shows "closed_for st q X"
  unfolding closed_for_def
proof (intro allI impI)
  fix i
  assume a: "0 \<le> i \<and> i < int (length (edge_list st)) \<and> 0 < resid (edge_list st) i \<and>
          dist_of st (hd_of (edge_list st) (i XOR 1)) \<noteq> - 1 \<and>
          hd_of (edge_list st) (i XOR 1) \<notin> set q \<and> i \<notin> X"
  show "dist_of st (hd_of (edge_list st) i) \<noteq> - 1"
  proof (cases "i = idx")
    case True
    with a assms(2) show ?thesis by auto
  next
    case False
    with a have "0 \<le> i \<and> i < int (length (edge_list st)) \<and> 0 < resid (edge_list st) i \<and>
          dist_of st (hd_of (edge_list st) (i XOR 1)) \<noteq> - 1 \<and>
          hd_of (edge_list st) (i XOR 1) \<notin> set q \<and> i \<notin> insert idx X" by simp
    with assms(1) show ?thesis unfolding closed_for_def by blast
  qed
qed

lemma closed_for_visit:
  assumes wf: "wf_graph st" and tree: "bfs_tree s st"
    and u: "0 \<le> u" "u < vertices st" "dist_of st u \<noteq> - 1"
    and idx: "0 \<le> idx" "idx < int (length (edge_list st))"
    and dv: "dist_of st (hd_of (edge_list st) idx) = - 1"
    and cl: "closed_for st q (insert idx X)"
  shows "closed_for (visit st u idx) (q @ [hd_of (edge_list st) idx]) X"
  unfolding closed_for_def visit_fields
proof (intro allI impI)
  define v where "v = hd_of (edge_list st) idx"
  define el where "el = edge_list st"
  note t = bfs_treeD[OF tree]
  have v: "0 \<le> v" "v < vertices st" using wf_graphD(4)[OF wf idx] by (simp_all add: v_def)
  have du0: "0 \<le> dist_of st u" using t(6)[OF u(1,2)] u(3) by simp
  have d1: "dist_of (visit st u idx) w = (if w = v then dist_of st u + 1 else dist_of st w)"
    if "0 \<le> w" for w
    unfolding v_def using t(1) v[unfolded v_def] that by (rule visit_dist)
  fix i
  assume a: "0 \<le> i \<and> i < int (length (edge_list st)) \<and> 0 < resid (edge_list st) i \<and>
          dist_of (visit st u idx) (hd_of (edge_list st) (i XOR 1)) \<noteq> - 1 \<and>
          hd_of (edge_list st) (i XOR 1) \<notin> set (q @ [hd_of (edge_list st) idx]) \<and> i \<notin> X"
  then have i: "0 \<le> i" "i < int (length (edge_list st))" by simp_all
  have x: "0 \<le> i XOR 1" "i XOR 1 < int (length (edge_list st))"
    using i wf_graphD(3)[OF wf] xor1_lt[of i "length (edge_list st)"] by simp_all
  have h: "0 \<le> hd_of (edge_list st) i" using wf_graphD(4)[OF wf i] by simp
  have tl: "0 \<le> hd_of (edge_list st) (i XOR 1)" using wf_graphD(4)[OF wf x] by simp
  from a have tv: "hd_of (edge_list st) (i XOR 1) \<noteq> v" by (simp add: v_def)
  with a d1[OF tl] have dt: "dist_of st (hd_of (edge_list st) (i XOR 1)) \<noteq> - 1" by simp
  show "dist_of (visit st u idx) (hd_of (edge_list st) i) \<noteq> - 1"
  proof (cases "i = idx")
    case True
    then show ?thesis using d1[OF h] du0 by (simp add: v_def)
  next
    case False
    with a dt have "0 \<le> i \<and> i < int (length (edge_list st)) \<and> 0 < resid (edge_list st) i \<and>
          dist_of st (hd_of (edge_list st) (i XOR 1)) \<noteq> - 1 \<and>
          hd_of (edge_list st) (i XOR 1) \<notin> set q \<and> i \<notin> insert idx X" by simp
    with cl have "dist_of st (hd_of (edge_list st) i) \<noteq> - 1" unfolding closed_for_def by blast
    then show ?thesis using d1[OF h] du0 by auto
  qed
qed

lemma visit_wf: "wf_graph st \<Longrightarrow> wf_graph (visit st u idx)"
  by (erule wf_graph_shape) (simp add: frame_def)

lemma BFS_for_inv:
  assumes wf: "wf_graph st" and tree: "bfs_tree s st"
    and u: "0 \<le> u" "u < vertices st" "dist_of st u \<noteq> - 1"
    and xs: "set xs \<subseteq> set (adjacency_list st ! nat u)"
    and q: "queue_ok st q"
    and cl: "closed_for st q (set xs)"
  shows "\<exists>q1 st1. BFS_for u xs q st = (Inr q1, st1) \<and> wf_graph st1 \<and> bfs_tree s st1 \<and>
    queue_ok st1 q1 \<and> closed_for st1 q1 {} \<and>
    length q1 + card (unreached st1) = length q + card (unreached st)"
  using assms
proof (induction xs arbitrary: q st)
  case Nil
  then show ?case by simp
next
  case (Cons idx rest)
  note wf = Cons.prems(1) and tree = Cons.prems(2) and u = Cons.prems(3,4,5)
  note t = bfs_treeD[OF tree]
  from Cons.prems(6) have "idx \<in> set (adjacency_list st ! nat u)" by simp
  with wf_graphD(6)[OF wf u(1,2)] have idx: "0 \<le> idx" "idx < int (length (edge_list st))"
    and tl: "hd_of (edge_list st) (idx XOR 1) = u" by simp_all
  define v where "v = hd_of (edge_list st) idx"
  have v: "0 \<le> v" "v < vertices st" using wf_graphD(4)[OF wf idx] by (simp_all add: v_def)
  from Cons.prems(8) have cl: "closed_for st q (insert idx (set rest))" by simp
  from Cons.prems(6) have rest: "set rest \<subseteq> set (adjacency_list st ! nat u)" by simp
  note step = BFS_for_step[OF idx v[unfolded v_def] u(1,2) t(1,2), of rest q]
  show ?case
  proof (cases "0 < resid (edge_list st) idx \<and> dist_of st v = - 1")
    case False
    then have e: "BFS_for u (idx # rest) q st = BFS_for u rest q st"
      unfolding step by (auto simp: v_def)
    have "closed_for st q (set rest)"
      using cl False unfolding v_def by (rule closed_for_skip)
    from Cons.IH[OF wf tree u rest Cons.prems(7) this] e show ?thesis by simp
  next
    case True
    define st1 where "st1 = visit st u idx"
    from True have e: "BFS_for u (idx # rest) q st = BFS_for u rest (q @ [v]) st1"
      unfolding step by (auto simp: v_def st1_def visit_def)
    from True have res: "0 < resid (edge_list st) idx" and dv: "dist_of st v = - 1" by simp_all
    have wf1: "wf_graph st1" unfolding st1_def using wf by (rule visit_wf)
    have tree1: "bfs_tree s st1" unfolding st1_def
      using tree u idx v[unfolded v_def] tl res dv[unfolded v_def] by (rule visit_tree)
    have d1: "dist_of st1 w = (if w = v then dist_of st u + 1 else dist_of st w)" if "0 \<le> w" for w
      unfolding st1_def v_def using t(1) v[unfolded v_def] that by (rule visit_dist)
    have du0: "0 \<le> dist_of st u" using t(6)[OF u(1,2)] u(3) by simp
    have u1: "0 \<le> u" "u < vertices st1" "dist_of st1 u \<noteq> - 1"
      using u d1[OF u(1)] dv by (auto simp: st1_def)
    have rest1: "set rest \<subseteq> set (adjacency_list st1 ! nat u)" using rest by (simp add: st1_def)
    have q1: "queue_ok st1 (q @ [v])"
      unfolding queue_ok_def
    proof
      fix w assume "w \<in> set (q @ [v])"
      then consider "w \<in> set q" | "w = v" by auto
      then show "0 \<le> w \<and> w < vertices st1 \<and> dist_of st1 w \<noteq> - 1"
      proof cases
        case 1
        with Cons.prems(7) have w: "0 \<le> w" "w < vertices st" "dist_of st w \<noteq> - 1"
          by (simp_all add: queue_ok_def)
        with d1[OF w(1)] du0 show ?thesis by (auto simp: st1_def)
      next
        case 2
        with v d1[OF v(1)] du0 show ?thesis by (auto simp: st1_def)
      qed
    qed
    have cl1: "closed_for st1 (q @ [v]) (set rest)"
      unfolding st1_def v_def
      using wf tree u idx dv[unfolded v_def] cl by (rule closed_for_visit)
    have c: "Suc (card (unreached st1)) = card (unreached st)"
      unfolding st1_def using tree u v[unfolded v_def] dv[unfolded v_def] by (rule visit_unreached)
    from Cons.IH[OF wf1 tree1 u1 rest1 q1 cl1] obtain q2 st2 where
      r: "BFS_for u rest (q @ [v]) st1 = (Inr q2, st2)" "wf_graph st2" "bfs_tree s st2"
        "queue_ok st2 q2" "closed_for st2 q2 {}"
        "length q2 + card (unreached st2) = length (q @ [v]) + card (unreached st1)"
      by blast
    from r(6) c have "length q2 + card (unreached st2) = length q + card (unreached st)" by simp
    with r e show ?thesis by simp
  qed
qed

lemma BFS_while_Nil: "BFS_while t [] st = Some (Inr (), st)"
  by (subst BFS_while.simps) simp

lemma BFS_while_hit: "BFS_while t (t # q) st = Some (Inr (), st)"
  by (subst BFS_while.simps) simp

lemma BFS_while_step:
  assumes "u \<noteq> t" "py_get (adjacency_list st) u = Some adj" "BFS_for u adj q1 st = (Inr q2, st1)"
  shows "BFS_while t (u # q1) st = BFS_while t q2 st1"
  by (subst BFS_while.simps) (simp add: assms)

lemma closed_for_pop:
  assumes wf: "wf_graph st" and u: "0 \<le> u" "u < vertices st"
    and cl: "closed_for st (u # q) {}"
  shows "closed_for st q (set (adjacency_list st ! nat u))"
  unfolding closed_for_def
proof (intro allI impI)
  fix i
  assume a: "0 \<le> i \<and> i < int (length (edge_list st)) \<and> 0 < resid (edge_list st) i \<and>
          dist_of st (hd_of (edge_list st) (i XOR 1)) \<noteq> - 1 \<and>
          hd_of (edge_list st) (i XOR 1) \<notin> set q \<and> i \<notin> set (adjacency_list st ! nat u)"
  with wf_graphD(6)[OF wf u] have "hd_of (edge_list st) (i XOR 1) \<noteq> u" by auto
  with a have "0 \<le> i \<and> i < int (length (edge_list st)) \<and> 0 < resid (edge_list st) i \<and>
          dist_of st (hd_of (edge_list st) (i XOR 1)) \<noteq> - 1 \<and>
          hd_of (edge_list st) (i XOR 1) \<notin> set (u # q) \<and> i \<notin> {}" by simp
  with cl show "dist_of st (hd_of (edge_list st) i) \<noteq> - 1" unfolding closed_for_def by blast
qed

lemma BFS_while_inv:
  assumes "wf_graph st" "bfs_tree s st" "queue_ok st q" "closed_for st q {}"
  shows "\<exists>st1. BFS_while t q st = Some (Inr (), st1) \<and> wf_graph st1 \<and> bfs_tree s st1 \<and>
    (dist_of st1 t = - 1 \<longrightarrow> closed_for st1 [] {})"
  using assms
proof (induction "length q + card (unreached st)" arbitrary: q st rule: less_induct)
  case less
  note wf = less.prems(1) and tree = less.prems(2) and qok = less.prems(3) and cl = less.prems(4)
  show ?case
  proof (cases q)
    case Nil
    with wf tree cl show ?thesis by (simp add: BFS_while_Nil)
  next
    case (Cons u q1)
    from qok Cons have u: "0 \<le> u" "u < vertices st" "dist_of st u \<noteq> - 1"
      and q1: "queue_ok st q1" by (simp_all add: queue_ok_def)
    show ?thesis
    proof (cases "u = t")
      case True
      with Cons wf tree u show ?thesis by (simp add: BFS_while_hit)
    next
      case False
      define adj where "adj = adjacency_list st ! nat u"
      have g: "py_get (adjacency_list st) u = Some adj"
        using u wf_graphD(2)[OF wf] by (simp add: py_get_in adj_def)
      have cl1: "closed_for st q1 (set adj)"
        unfolding adj_def using wf u(1,2) cl[unfolded Cons] by (rule closed_for_pop)
      have "set (adjacency_list st ! nat u) \<subseteq> set (adjacency_list st ! nat u)" by simp
      from BFS_for_inv[OF wf tree u this q1 cl1[unfolded adj_def]]
      obtain q2 st2 where
        r: "BFS_for u adj q1 st = (Inr q2, st2)" "wf_graph st2" "bfs_tree s st2"
          "queue_ok st2 q2" "closed_for st2 q2 {}"
          "length q2 + card (unreached st2) = length q1 + card (unreached st)"
        unfolding adj_def by blast
      have e: "BFS_while t q st = BFS_while t q2 st2"
        unfolding Cons using False g r(1) by (rule BFS_while_step)
      from r(6) Cons have "length q2 + card (unreached st2) < length q + card (unreached st)" by simp
      from less.hyps[OF this r(2,3,4,5)] e show ?thesis by simp
    qed
  qed
qed

lemma bfs_tree_bound:
  assumes tree: "bfs_tree s st" and v: "0 \<le> v" "v < vertices st"
  shows "dist_of st v < vertices st"
proof (cases "dist_of st v = - 1")
  case True
  with v show ?thesis by simp
next
  case False
  note t = bfs_treeD[OF tree]
  define d where "d = dist_of st v"
  have d0: "0 \<le> d" using t(6)[OF v] False by (simp add: d_def)
  have "{0..d} \<subseteq> dist_of st ` {0..<vertices st}"
  proof
    fix k assume "k \<in> {0..d}"
    then have "0 \<le> k" "k \<le> dist_of st v" by (simp_all add: d_def)
    from t(8)[OF v False this] obtain w where "0 \<le> w" "w < vertices st" "dist_of st w = k" by blast
    then show "k \<in> dist_of st ` {0..<vertices st}" by force
  qed
  then have "card {0..d} \<le> card (dist_of st ` {0..<vertices st})"
    by (intro card_mono) simp_all
  also have "\<dots> \<le> card {0..<vertices st}" by (rule card_image_le) simp
  finally have "nat (d + 1) \<le> nat (vertices st)" by simp
  with d0 show ?thesis by (simp add: d_def)
qed

lemma BFS_total:
  assumes wf: "wf_graph st" and s: "0 \<le> s" "s < vertices st" and t: "0 \<le> t" "t < vertices st"
  shows "\<exists>b st1. BFS s t st = Some (Inr b, st1) \<and> wf_graph st1 \<and> bfs_tree s st1 \<and>
    frame st st1 \<and> edge_list st1 = edge_list st \<and> trace st1 = trace st \<and>
    last_arc st1 = last_arc st \<and> (b \<longleftrightarrow> dist_of st1 t \<noteq> - 1) \<and>
    (\<not> b \<longrightarrow> closed_for st1 [] {})"
proof -
  define V where "V = nat (vertices st)"
  define st2 where "st2 = st\<lparr>distances := (replicate V (- 1))[nat s := 0],
     points := replicate V (- 1, - 1)\<rparr>"
  have sV: "nat s < V" using s by (simp add: V_def)
  have f2: "frame st st2" by (simp add: frame_def st2_def)
  have wf2: "wf_graph st2" using wf f2 by (rule wf_graph_shape)
  have d2: "dist_of st2 w = (if w = s then 0 else - 1)" if "0 \<le> w" "w < vertices st" for w
  proof -
    have "nat w < V" using that by (simp add: V_def)
    moreover have "nat s = nat w \<longleftrightarrow> w = s" using that s by (auto simp: eq_nat_nat_iff)
    ultimately show ?thesis using sV by (simp add: dist_of_def st2_def nth_list_update)
  qed
  have tree2: "bfs_tree s st2"
  proof (rule bfs_treeI)
    show "length (distances st2) = nat (vertices st2)" "length (points st2) = nat (vertices st2)"
      by (simp_all add: st2_def V_def)
    show "0 \<le> s" "s < vertices st2" using s by (simp_all add: st2_def)
    show "dist_of st2 s = 0" using d2[OF s] by simp
  next
    fix v assume "0 \<le> v" "v < vertices st2"
    then show "- 1 \<le> dist_of st2 v" using d2[of v] by (simp add: st2_def)
  next
    fix v assume "0 \<le> v" "v < vertices st2" "v \<noteq> s" "dist_of st2 v \<noteq> - 1"
    then show "parent_ok st2 v" using d2[of v] by (simp add: st2_def)
  next
    fix v d assume a: "0 \<le> v" "v < vertices st2" "dist_of st2 v \<noteq> - 1" "0 \<le> d" "d \<le> dist_of st2 v"
    then have "v = s" using d2[of v] by (auto simp: st2_def split: if_splits)
    with a d2[OF s] have "d = 0" by simp
    with s d2[OF s] show "\<exists>w. 0 \<le> w \<and> w < vertices st2 \<and> dist_of st2 w = d"
      by (intro exI[of _ s]) (simp add: st2_def)
  qed
  have q2: "queue_ok st2 [s]" using s d2[OF s] by (simp add: queue_ok_def st2_def)
  have cl2: "closed_for st2 [s] {}"
    unfolding closed_for_def
  proof (intro allI impI)
    fix i
    assume a: "0 \<le> i \<and> i < int (length (edge_list st2)) \<and> 0 < resid (edge_list st2) i \<and>
          dist_of st2 (hd_of (edge_list st2) (i XOR 1)) \<noteq> - 1 \<and>
          hd_of (edge_list st2) (i XOR 1) \<notin> set [s] \<and> i \<notin> {}"
    then have i: "0 \<le> i" "i < int (length (edge_list st2))" by simp_all
    have x: "0 \<le> i XOR 1" "i XOR 1 < int (length (edge_list st2))"
      using i wf_graphD(3)[OF wf2] xor1_lt[of i "length (edge_list st2)"] by simp_all
    from wf_graphD(4)[OF wf2 x] have "0 \<le> hd_of (edge_list st2) (i XOR 1)"
      "hd_of (edge_list st2) (i XOR 1) < vertices st" by (simp_all add: st2_def)
    from d2[OF this] a show "dist_of st2 (hd_of (edge_list st2) i) \<noteq> - 1" by auto
  qed
  from BFS_while_inv[OF wf2 tree2 q2 cl2, of t] obtain st3 where
    r: "BFS_while t [s] st2 = Some (Inr (), st3)" "wf_graph st3" "bfs_tree s st3"
      "dist_of st3 t = - 1 \<longrightarrow> closed_for st3 [] {}" by blast
  from BFS_while_frame[OF r(1)] f2 have V3: "vertices st3 = vertices st"
    by (simp add: frame_def)
  have ps: "py_set (distances (st\<lparr>distances := replicate (nat (vertices st)) (- 1)\<rparr>)) s 0 =
      Some ((replicate V (- 1))[nat s := 0])"
    using s by (simp add: py_set_in V_def)
  have gt: "py_get (distances st3) t = Some (dist_of st3 t)"
    using t bfs_treeD(1)[OF r(3)] V3 by (simp add: py_get_in dist_of_def)
  have run: "BFS s t st = Some (Inr (dist_of st3 t \<noteq> - 1), st3)"
    unfolding BFS_def Let_def ps using r(1) gt
    by (simp add: st2_def V_def)
  from BFS_frame[OF run] run r show ?thesis by auto
qed

subsection \<open>Augmenting along the parent pointers\<close>

lemma augmented_refl: "augmented st st a a p"
  by (simp add: augmented_def)

lemma frame_trans: "frame a b \<Longrightarrow> frame b c \<Longrightarrow> frame a c"
  by (simp add: frame_def)

lemma frame_hd_of:
  assumes "frame st st1" "0 \<le> i" "i < int (length (edge_list st))"
  shows "hd_of (edge_list st1) i = hd_of (edge_list st) i"
  using assms by (intro shape_hd_of) (simp_all add: frame_def)

lemma frame_cap_of:
  assumes "frame st st1" "0 \<le> i" "i < int (length (edge_list st))"
  shows "cap_of (edge_list st1) i = cap_of (edge_list st) i"
  using assms by (intro shape_cap_of) (simp_all add: frame_def)

lemma frame_length:
  assumes "frame st st1"
  shows "length (edge_list st1) = length (edge_list st)"
  using assms by (intro shape_length) (simp add: frame_def)

text \<open>One push after an augmentation from \<open>a\<close> to the tail of the pushed edge.\<close>

lemma augmented_push:
  assumes wf: "wf_graph st"
    and aug: "augmented st st1 a u p"
    and idx: "0 \<le> idx" "idx < int (length (edge_list st))"
    and tl: "hd_of (edge_list st) (idx XOR 1) = u" and hd: "hd_of (edge_list st) idx = v"
    and fr: "frame st1 st2" "distances st2 = distances st1" "points st2 = points st1"
    and fp: "flows_pushed (edge_list st1) (edge_list st2) idx p"
  shows "augmented st st2 a v p"
proof -
  from aug have f1: "frame st st1" and d1: "distances st1 = distances st" "points st1 = points st"
    and o1: "\<And>w. 0 \<le> w \<Longrightarrow> w < vertices st \<Longrightarrow>
        flow_out st1 w = flow_out st w + (if w = a then p else 0) - (if w = u then p else 0)"
    by (simp_all add: augmented_def)
  note wf1 = wf_graph_shape[OF wf f1]
  have l1: "length (edge_list st1) = length (edge_list st)" using f1 by (rule frame_length)
  have V1: "vertices st1 = vertices st" using f1 by (simp add: frame_def)
  have x: "0 \<le> idx XOR 1" "idx XOR 1 < int (length (edge_list st))"
    using idx wf_graphD(3)[OF wf] xor1_lt[of idx "length (edge_list st)"] by simp_all
  have h1: "hd_of (edge_list st1) idx = v" using frame_hd_of[OF f1 idx] hd by simp
  have t1: "hd_of (edge_list st1) (idx XOR 1) = u" using frame_hd_of[OF f1 x] tl by simp
  have o2: "flow_out st2 w = flow_out st w + (if w = a then p else 0) - (if w = v then p else 0)"
    if w: "0 \<le> w" "w < vertices st" for w
  proof -
    have "flow_out st2 w = flow_out st1 w + (if hd_of (edge_list st1) (idx XOR 1) = w then p else 0)
        - (if hd_of (edge_list st1) idx = w then p else 0)"
      using wf1 fr(1) fp idx w unfolding l1[symmetric] V1[symmetric] by (rule flow_out_pushed)
    with o1[OF w] h1 t1 show ?thesis by auto
  qed
  from frame_trans[OF f1 fr(1)] fr(2,3) d1 o2 show ?thesis
    by (simp add: augmented_def)
qed

lemma trace_ok_push:
  assumes wf: "wf_graph st1" and ok: "trace_ok nn st1"
    and fp: "flows_pushed (edge_list st1) (edge_list st2) idx p"
    and tr: "trace st2 = edge_list st2 # trace st1"
    and p: "nn \<longrightarrow> 0 \<le> p \<and> p \<le> resid (edge_list st1) idx"
  shows "trace_ok nn st2"
proof -
  from ok have a: "antisym (edge_list st1)" and c: "nn \<longrightarrow> cap_ok (edge_list st1)"
    and old: "\<forall>el \<in> set (trace st1). edges_ok nn el"
    by (simp_all add: trace_ok_def edges_ok_def)
  note ev = wf_graphD(3)[OF wf]
  have a2: "antisym (edge_list st2)" using fp a ev by (rule flows_pushed_antisym)
  have c2: "nn \<longrightarrow> cap_ok (edge_list st2)"
  proof
    assume nn
    with c p have "cap_ok (edge_list st1)" "0 \<le> p"
      "p \<le> cap_of (edge_list st1) idx - flow_of (edge_list st1) idx"
      by (simp_all add: resid_def)
    with fp ev show "cap_ok (edge_list st2)"
      by (intro flows_pushed_cap_ok[of "edge_list st1" "edge_list st2" idx p])
  qed
  from fp have "length (edge_list st2) = length (edge_list st1)"
    using shape_length[of "edge_list st2" "edge_list st1"] by (simp add: flows_pushed_def)
  with ev have e2: "even (length (edge_list st2))" by simp
  from a2 c2 e2 old tr show ?thesis by (simp add: trace_ok_def edges_ok_def)
qed

lemma sof_step:
  assumes "s \<noteq> t" "py_get (points st) t = Some (u, idx)"
    "py_get (edge_list st) idx = Some (h, c, fl)"
  shows "send_one_flow_fin (Suc n) s t f st =
    (case send_one_flow_fin n s u (min f (c - fl)) st of
       (Inl e, st1) \<Rightarrow> (Inl e, st1)
     | (Inr pushed, st1) \<Rightarrow>
         (case push_flow idx fl pushed st1 of
            (Inl e, st2) \<Rightarrow> (Inl e, st2)
          | (Inr _, st2) \<Rightarrow> (Inr pushed, st2)))"
  using assms by simp

declare send_one_flow_fin.simps(2) [simp del]

lemma send_one_flow_fin_tree:
  assumes wf: "wf_graph st" and tree: "bfs_tree s st" and ok: "trace_ok nn st"
    and t: "0 \<le> t" "t < vertices st" "dist_of st t \<noteq> - 1" and f: "0 < f"
  shows "\<exists>r st1. send_one_flow_fin n s t f st = (r, st1) \<and>
     (case r of
        Inl e \<Rightarrow> e = RecursionError \<and> st1 = st \<and> n \<le> nat (dist_of st t)
      | Inr p \<Rightarrow> 0 < p \<and> p \<le> f \<and> augmented st st1 s t p \<and> trace_ok nn st1 \<and>
          last_arc st1 = last_arc st \<and>
          (\<forall>j. 0 \<le> j \<and> j < int (length (edge_list st)) \<and>
               dist_of st t < dist_of st (hd_of (edge_list st) j) \<longrightarrow>
               flow_of (edge_list st1) j = flow_of (edge_list st) j))"
  using t f
proof (induction n arbitrary: t f)
  case 0
  then show ?case by simp
next
  case (Suc n)
  note tr = bfs_treeD[OF tree]
  note t = Suc.prems(1,2,3) and f = Suc.prems(4)
  show ?case
  proof (cases "s = t")
    case True
    have "send_one_flow_fin (Suc n) s t f st = (Inr f, st)"
      using True by (simp add: send_one_flow_fin.simps(2))
    with True f ok show ?thesis by (simp add: augmented_refl)
  next
    case False
    then have po: "parent_ok st t" using t by (intro tr(7)) auto
    obtain u idx where pp: "points st ! nat t = (u, idx)" by (cases "points st ! nat t") auto
    from po pp have a: "0 \<le> u" "u < vertices st" "0 \<le> idx" "idx < int (length (edge_list st))"
      "hd_of (edge_list st) idx = t" "hd_of (edge_list st) (idx XOR 1) = u"
      "0 < resid (edge_list st) idx" "dist_of st u \<noteq> - 1" "dist_of st t = dist_of st u + 1"
      by (simp_all add: parent_ok_def)
    define el where "el = edge_list st"
    define fl where "fl = flow_of el idx"
    define f1 where "f1 = min f (cap_of el idx - fl)"
    have du0: "0 \<le> dist_of st u" using tr(6)[OF a(1,2)] a(8) by simp
    have gp: "py_get (points st) t = Some (u, idx)"
      using t tr(2) pp by (simp add: py_get_in)
    have ge: "py_get (edge_list st) idx = Some (hd_of el idx, cap_of el idx, fl)"
      using a(3,4) by (simp add: py_get_in edge_triple el_def fl_def)
    note step = sof_step[OF False gp ge, of n f, folded f1_def]
    have f1: "0 < f1" "f1 \<le> f" "f1 \<le> resid el idx"
      using f a(7) by (simp_all add: f1_def resid_def el_def fl_def)
    from Suc.IH[OF a(1,2,8) f1(1)] obtain r1 st1 where
      rec: "send_one_flow_fin n s u f1 st = (r1, st1)"
      and post: "case r1 of
        Inl e \<Rightarrow> e = RecursionError \<and> st1 = st \<and> n \<le> nat (dist_of st u)
      | Inr p \<Rightarrow> 0 < p \<and> p \<le> f1 \<and> augmented st st1 s u p \<and> trace_ok nn st1 \<and>
          last_arc st1 = last_arc st \<and>
          (\<forall>j. 0 \<le> j \<and> j < int (length (edge_list st)) \<and>
               dist_of st u < dist_of st (hd_of (edge_list st) j) \<longrightarrow>
               flow_of (edge_list st1) j = flow_of (edge_list st) j)"
      by blast
    show ?thesis
    proof (cases r1)
      case (Inl e)
      with post have "e = RecursionError" "st1 = st" "n \<le> nat (dist_of st u)" by simp_all
      moreover have "Suc n \<le> nat (dist_of st t)" using \<open>n \<le> nat (dist_of st u)\<close> a(9) du0 by simp
      ultimately show ?thesis using step rec Inl by simp
    next
      case (Inr p)
      with post have p: "0 < p" "p \<le> f1" and aug: "augmented st st1 s u p"
        and ok1: "trace_ok nn st1" and la: "last_arc st1 = last_arc st"
        and same: "\<And>j. 0 \<le> j \<Longrightarrow> j < int (length (edge_list st)) \<Longrightarrow>
               dist_of st u < dist_of st (hd_of (edge_list st) j) \<Longrightarrow>
               flow_of (edge_list st1) j = flow_of (edge_list st) j"
        by simp_all
      from aug have fr1: "frame st st1" by (simp add: augmented_def)
      note wf1 = wf_graph_shape[OF wf fr1]
      note l1 = frame_length[OF fr1]
      have idx1: "0 \<le> idx" "idx < int (length (edge_list st1))" using a(3,4) l1 by simp_all
      have fl1: "fl = flow_of (edge_list st1) idx"
        using same[OF a(3,4)] a(5,9) by (simp add: fl_def el_def)
      from push_flow_pushed[OF wf1 idx1 fl1, of p] obtain st2 where
        push: "push_flow idx fl p st1 = (Inr (), st2)" and fr2: "frame st1 st2"
        and keep: "distances st2 = distances st1" "points st2 = points st1"
          "last_arc st2 = last_arc st1"
        and tr2: "trace st2 = edge_list st2 # trace st1"
        and fp: "flows_pushed (edge_list st1) (edge_list st2) idx p"
        by blast
      have run: "send_one_flow_fin (Suc n) s t f st = (Inr p, st2)"
        using step rec Inr push by simp
      have aug2: "augmented st st2 s t p"
        using wf aug a(3,4,6,5) fr2 keep(1,2) fp by (rule augmented_push)
      have r1: "resid (edge_list st1) idx = resid el idx"
        using frame_cap_of[OF fr1 a(3,4)] fl1 by (simp add: resid_def fl_def el_def)
      have ok2: "trace_ok nn st2"
        using wf1 ok1 fp tr2
      proof (rule trace_ok_push)
        show "nn \<longrightarrow> 0 \<le> p \<and> p \<le> resid (edge_list st1) idx" using p f1 r1 by simp
      qed
      have same2: "flow_of (edge_list st2) j = flow_of (edge_list st) j"
        if j: "0 \<le> j" "j < int (length (edge_list st))"
          "dist_of st t < dist_of st (hd_of (edge_list st) j)" for j
      proof -
        have "j \<noteq> idx" using j(3) a(5) by auto
        moreover have "j \<noteq> idx XOR 1" using j(3) a(6,9) by auto
        moreover have "flow_of (edge_list st2) j = flow_of (edge_list st1) j
            + (if j = idx then p else 0) - (if j = idx XOR 1 then p else 0)"
          using fp j(1,2) l1 unfolding flows_pushed_def by simp
        moreover have "flow_of (edge_list st1) j = flow_of (edge_list st) j"
          using j a(9) by (intro same) simp_all
        ultimately show ?thesis by simp
      qed
      from run p f1 aug2 ok2 keep la same2 show ?thesis by simp
    qed
  qed
qed

lemma send_one_flow_Infty_eq:
  fixes st :: "int MaximumFlow"
  assumes "s \<noteq> t" "py_get (points st) t = Some (u, idx)"
    "py_get (edge_list st) idx = Some (h, c, fl)"
  shows "send_one_flow lim s t Infty st = fin_result (send_one_flow_fin lim s t (c - fl) st)"
proof (cases lim)
  case 0
  then show ?thesis by simp
next
  case (Suc n)
  show ?thesis
    unfolding Suc sof_step[OF assms]
    using assms by (simp split: prod.splits sum.splits)
qed

lemma send_one_flow_tree:
  assumes wf: "wf_graph st" and tree: "bfs_tree s st" and ok: "trace_ok nn st"
    and t: "0 \<le> t" "t < vertices st" "dist_of st t \<noteq> - 1" and st: "s \<noteq> t"
  shows "\<exists>r st1. send_one_flow lim s t Infty st = (r, st1) \<and>
     (case r of
        Inl e \<Rightarrow> e = RecursionError \<and> st1 = st \<and> lim \<le> nat (dist_of st t)
      | Inr x \<Rightarrow> (\<exists>p. x = Fin p \<and> 0 < p \<and> augmented st st1 s t p \<and> trace_ok nn st1 \<and>
          last_arc st1 = last_arc st))"
proof -
  note tr = bfs_treeD[OF tree]
  from st have po: "parent_ok st t" using t by (intro tr(7)) auto
  obtain u idx where pp: "points st ! nat t = (u, idx)" by (cases "points st ! nat t") auto
  from po pp have a: "0 \<le> idx" "idx < int (length (edge_list st))"
      "0 < resid (edge_list st) idx"
    by (simp_all add: parent_ok_def)
  define el where "el = edge_list st"
  have gp: "py_get (points st) t = Some (u, idx)"
    using t tr(2) pp by (simp add: py_get_in)
  have ge: "py_get (edge_list st) idx = Some (hd_of el idx, cap_of el idx, flow_of el idx)"
    using a(1,2) by (simp add: py_get_in edge_triple el_def)
  have e: "send_one_flow lim s t Infty st =
      fin_result (send_one_flow_fin lim s t (resid el idx) st)"
    unfolding resid_def using st gp ge by (rule send_one_flow_Infty_eq)
  from send_one_flow_fin_tree[OF wf tree ok t a(3), of lim] obtain r st1 where
    rec: "send_one_flow_fin lim s t (resid el idx) st = (r, st1)"
    and post: "case r of
        Inl e \<Rightarrow> e = RecursionError \<and> st1 = st \<and> lim \<le> nat (dist_of st t)
      | Inr p \<Rightarrow> 0 < p \<and> p \<le> resid (edge_list st) idx \<and> augmented st st1 s t p \<and>
          trace_ok nn st1 \<and> last_arc st1 = last_arc st \<and>
          (\<forall>j. 0 \<le> j \<and> j < int (length (edge_list st)) \<and>
               dist_of st t < dist_of st (hd_of (edge_list st) j) \<longrightarrow>
               flow_of (edge_list st1) j = flow_of (edge_list st) j)"
    unfolding el_def by blast
  show ?thesis
  proof (cases r)
    case (Inl err)
    with e rec post show ?thesis by simp
  next
    case (Inr p)
    with e rec post show ?thesis by simp
  qed
qed

subsection \<open>The loop of the shortest-augmenting-path strategy\<close>

lemma flow_out_cong:
  assumes "edge_list st1 = edge_list st" "adjacency_list st1 = adjacency_list st"
  shows "flow_out st1 w = flow_out st w"
  using assms by (simp add: flow_out_def)

lemma flow_state_cong:
  assumes "flow_state nn s t st" "frame st st1" "edge_list st1 = edge_list st"
    "trace st1 = trace st"
  shows "flow_state nn s t st1"
proof -
  from assms(2) have e: "vertices st1 = vertices st" "adjacency_list st1 = adjacency_list st"
    by (simp_all add: frame_def)
  have "flow_out st1 w = flow_out st w" for w using assms(3) e(2) by (rule flow_out_cong)
  with assms e wf_graph_shape[of st st1] show ?thesis
    by (simp add: flow_state_def conserved_def trace_ok_def)
qed

lemma flow_state_augmented:
  assumes fs: "flow_state nn s t st" and aug: "augmented st st1 s t p" and ok: "trace_ok nn st1"
  shows "flow_state nn s t st1"
proof -
  from aug have fr: "frame st st1"
    and o: "\<And>w. 0 \<le> w \<Longrightarrow> w < vertices st \<Longrightarrow>
        flow_out st1 w = flow_out st w + (if w = s then p else 0) - (if w = t then p else 0)"
    by (simp_all add: augmented_def)
  from fr have V: "vertices st1 = vertices st" by (simp add: frame_def)
  from fs have wf: "wf_graph st" and c: "conserved s t st" by (simp_all add: flow_state_def)
  have "conserved s t st1"
    unfolding conserved_def
  proof (intro allI impI)
    fix w assume w: "0 \<le> w \<and> w < vertices st1 \<and> w \<noteq> s \<and> w \<noteq> t"
    with o[of w] V have "flow_out st1 w = flow_out st w" by simp
    with c w V show "flow_out st1 w = 0" by (simp add: conserved_def)
  qed
  with wf_graph_shape[OF wf fr] ok show ?thesis by (simp add: flow_state_def)
qed

lemma send_one_flow_same:
  "send_one_flow lim s s Infty st = (if lim = 0 then (Inl RecursionError, st) else (Inr Infty, st))"
  by (cases lim) simp_all

text \<open>One iteration of the loop of \<open>edmonds_karp\<close>.\<close>

lemma edmonds_karp_iteration:
  assumes fs: "flow_state nn s t st" and s: "0 \<le> s" "s < vertices st"
    and t: "0 \<le> t" "t < vertices st"
  shows "\<exists>b st1. BFS s t st = Some (Inr b, st1) \<and> flow_state nn s t st1 \<and>
      vertices st1 = vertices st \<and> flow_out st1 s = flow_out st s \<and>
      frame st st1 \<and> bfs_tree s st1 \<and>
      (\<not> b \<longrightarrow> dist_of st1 t = - 1 \<and> closed_for st1 [] {}) \<and>
      (b \<longrightarrow> (\<exists>r st2. send_one_flow lim s t Infty st1 = (r, st2) \<and>
         (case r of
            Inl e \<Rightarrow> e = RecursionError \<and> st2 = st1 \<and> (s \<noteq> t \<longrightarrow> lim \<le> nat (dist_of st1 t))
          | Inr x \<Rightarrow> flow_state nn s t st2 \<and> vertices st2 = vertices st \<and> frame st1 st2 \<and>
              (if s = t then x = Infty \<and> st2 = st1
               else (\<exists>p. x = Fin p \<and> 0 < p \<and> flow_out st2 s = flow_out st s + p)))))"
proof -
  from fs have wf: "wf_graph st" by (simp add: flow_state_def)
  from BFS_total[OF wf s t] obtain b st1 where
    b: "BFS s t st = Some (Inr b, st1)" "wf_graph st1" "bfs_tree s st1" "frame st st1"
      "edge_list st1 = edge_list st" "trace st1 = trace st" "last_arc st1 = last_arc st"
      "b \<longleftrightarrow> dist_of st1 t \<noteq> - 1" "\<not> b \<longrightarrow> closed_for st1 [] {}"
    by blast
  from b(4) have V1: "vertices st1 = vertices st" "adjacency_list st1 = adjacency_list st"
    by (simp_all add: frame_def)
  have fs1: "flow_state nn s t st1" using fs b(4,5,6) by (rule flow_state_cong)
  have o1: "flow_out st1 s = flow_out st s" using b(5) V1(2) by (rule flow_out_cong)
  from fs1 have ok1: "trace_ok nn st1" by (simp add: flow_state_def)
  have "\<exists>r st2. send_one_flow lim s t Infty st1 = (r, st2) \<and>
         (case r of
            Inl e \<Rightarrow> e = RecursionError \<and> st2 = st1 \<and> (s \<noteq> t \<longrightarrow> lim \<le> nat (dist_of st1 t))
          | Inr x \<Rightarrow> flow_state nn s t st2 \<and> vertices st2 = vertices st \<and> frame st1 st2 \<and>
              (if s = t then x = Infty \<and> st2 = st1
               else (\<exists>p. x = Fin p \<and> 0 < p \<and> flow_out st2 s = flow_out st s + p)))" if b
  proof (cases "s = t")
    case True
    with fs1 V1 show ?thesis by (simp add: send_one_flow_same)
  next
    case False
    from that b(8) have dt: "dist_of st1 t \<noteq> - 1" by simp
    from send_one_flow_tree[OF b(2,3) ok1 t(1) _ dt False, of lim] t(2) V1 obtain r st2 where
      r: "send_one_flow lim s t Infty st1 = (r, st2)"
      and post: "case r of
        Inl e \<Rightarrow> e = RecursionError \<and> st2 = st1 \<and> lim \<le> nat (dist_of st1 t)
      | Inr x \<Rightarrow> (\<exists>p. x = Fin p \<and> 0 < p \<and> augmented st1 st2 s t p \<and> trace_ok nn st2 \<and>
          last_arc st2 = last_arc st1)"
      by auto
    show ?thesis
    proof (cases r)
      case (Inl e)
      with r post False show ?thesis by simp
    next
      case (Inr x)
      with post obtain p where p: "x = Fin p" "0 < p" "augmented st1 st2 s t p" "trace_ok nn st2"
        by auto
      note fs2 = flow_state_augmented[OF fs1 p(3,4)]
      from p(3) have fr2: "frame st1 st2" by (simp add: augmented_def)
      from p(3) s V1 False have "flow_out st2 s = flow_out st1 s + p"
        by (simp add: augmented_def)
      with r Inr p fs2 fr2 V1 o1 False show ?thesis by (simp add: frame_def)
    qed
  qed
  with b fs1 V1 o1 show ?thesis by auto
qed

lemma edmonds_karp_while_safe:
  assumes "edmonds_karp_while lim s t mf st = Some y"
    and "flow_state nn s t st" and "0 \<le> s" "s < vertices st" and "0 \<le> t" "t < vertices st"
  shows "flow_state nn s t (snd y) \<and> vertices (snd y) = vertices st"
  using assms
proof (induction rule: edmonds_karp_while_induct)
  case (step loop lim s t mf st y)
  note fs = step.prems(1) and s = step.prems(2,3) and t = step.prems(4,5)
  from edmonds_karp_iteration[OF fs s t, of lim] obtain b st1 where
    b: "BFS s t st = Some (Inr b, st1)" "flow_state nn s t st1" "vertices st1 = vertices st"
    and send: "b \<longrightarrow> (\<exists>r st2. send_one_flow lim s t Infty st1 = (r, st2) \<and>
         (case r of
            Inl e \<Rightarrow> e = RecursionError \<and> st2 = st1 \<and> (s \<noteq> t \<longrightarrow> lim \<le> nat (dist_of st1 t))
          | Inr x \<Rightarrow> flow_state nn s t st2 \<and> vertices st2 = vertices st \<and> frame st1 st2 \<and>
              (if s = t then x = Infty \<and> st2 = st1
               else (\<exists>p. x = Fin p \<and> 0 < p \<and> flow_out st2 s = flow_out st s + p))))"
    by blast
  show ?case
  proof (cases b)
    case False
    with b(1) step(2) have "y = (Inr mf, st1)" by simp
    with b show ?thesis by simp
  next
    case True
    with send obtain r st2 where r: "send_one_flow lim s t Infty st1 = (r, st2)"
      and post: "case r of
            Inl e \<Rightarrow> e = RecursionError \<and> st2 = st1 \<and> (s \<noteq> t \<longrightarrow> lim \<le> nat (dist_of st1 t))
          | Inr x \<Rightarrow> flow_state nn s t st2 \<and> vertices st2 = vertices st \<and> frame st1 st2 \<and>
              (if s = t then x = Infty \<and> st2 = st1
               else (\<exists>p. x = Fin p \<and> 0 < p \<and> flow_out st2 s = flow_out st s + p))"
      by blast
    show ?thesis
    proof (cases r)
      case (Inl e)
      with True b(1) r step(2) have "y = (Inl e, st2)" by simp
      with Inl post b show ?thesis by simp
    next
      case (Inr x)
      with post have fs2: "flow_state nn s t st2" and V2: "vertices st2 = vertices st" by simp_all
      show ?thesis
      proof (cases "x = Fin 0")
        case x0: True
        with Inr True b(1) r step(2) have "y = (Inr mf, st2)" by simp
        with fs2 V2 show ?thesis by simp
      next
        case False
        with Inr True b(1) r step(2) have "loop lim s t (nplus mf x) st2 = Some y" by simp
        from step.IH[OF this fs2] s t V2 show ?thesis by simp
      qed
    qed
  qed
qed

subsection \<open>The blocking-flow search\<close>

lemma DFS_for_step:
  assumes "py_set (last_arc st) u i = Some la"
    "py_get (adjacency_list st) u = Some adj" "py_get adj i = Some idx"
    "py_get (edge_list st) idx = Some (v, c, fl)"
    "py_get (distances st) v = Some dv" "py_get (distances st) u = Some du"
  shows "DFS_for n u t f (i # rest) st =
    (if dv \<noteq> du + 1 then DFS_for n u t f rest (st\<lparr>last_arc := la\<rparr>)
     else (case DFS_fin n v t (py_min f (c - fl)) (st\<lparr>last_arc := la\<rparr>) of
        (Inl e, st2) \<Rightarrow> (Inl e, st2)
      | (Inr pushed, st2) \<Rightarrow>
          if pushed \<noteq> 0 then
            (case push_flow idx fl pushed st2 of
               (Inl e, st3) \<Rightarrow> (Inl e, st3)
             | (Inr _, st3) \<Rightarrow> (Inr pushed, st3))
          else DFS_for n u t f rest st2))"
  using assms by (simp add: Let_def)

lemma DFS_for_fail1:
  "py_set (last_arc st) u i = None \<Longrightarrow> DFS_for n u t f (i # rest) st = (Inl IndexError, st)"
  by simp

lemma DFS_for_fail2:
  "py_set (last_arc st) u i = Some la \<Longrightarrow> py_get (adjacency_list st) u = Some adj \<Longrightarrow>
   py_get adj i = None \<Longrightarrow>
   DFS_for n u t f (i # rest) st = (Inl IndexError, st\<lparr>last_arc := la\<rparr>)"
  by (simp add: Let_def)

lemma DFS_fin_step:
  assumes "\<not> (u = t \<or> f = 0)" "py_get (last_arc st) u = Some l"
    "py_get (adjacency_list st) u = Some adj"
  shows "DFS_fin (Suc n) u t f st = DFS_for n u t (Fin f) [l..int (length adj) - 1] st"
  using assms by simp

lemma DFS_fin_base:
  "u = t \<or> f = 0 \<Longrightarrow> DFS_fin (Suc n) u t f st = (Inr f, st)"
  by simp

lemma DFS_fin_fail:
  "\<not> (u = t \<or> f = 0) \<Longrightarrow> py_get (last_arc st) u = None \<Longrightarrow>
   DFS_fin (Suc n) u t f st = (Inl IndexError, st)"
  by simp

declare DFS_fin.simps(2) [simp del] DFS_for.simps(2) [simp del]

lemma last_arc_update_simps [simp]:
  "frame (st\<lparr>last_arc := la\<rparr>) st1 = frame st st1"
  "frame st (st1\<lparr>last_arc := la\<rparr>) = frame st st1"
  "wf_graph (st\<lparr>last_arc := la\<rparr>) = wf_graph st"
  "trace_ok nn (st\<lparr>last_arc := la\<rparr>) = trace_ok nn st"
  "flow_out (st\<lparr>last_arc := la\<rparr>) w = flow_out st w"
  "dist_of (st\<lparr>last_arc := la\<rparr>) w = dist_of st w"
  "touched (st\<lparr>last_arc := la\<rparr>) u j = touched st u j"
  by (simp_all add: frame_def wf_graph_def trace_ok_def flow_out_def dist_of_def touched_def)

lemma augmented_last_arc [simp]:
  "augmented (st\<lparr>last_arc := la\<rparr>) st1 a b p = augmented st st1 a b p"
  by (simp add: augmented_def)

lemma dfs_post_last_arc [simp]:
  "dfs_post nn (st\<lparr>last_arc := la\<rparr>) u t res = dfs_post nn st u t res"
  by (cases "fst res") (simp_all add: dfs_post_def)

lemma same_flow_refl [simp]: "same_flow st st"
  by (simp add: same_flow_def)

lemma same_flow_last_arc [simp]: "same_flow st (st\<lparr>last_arc := la\<rparr>)"
  by (simp add: same_flow_def)

lemma same_flow_trans: "same_flow a b \<Longrightarrow> same_flow b c \<Longrightarrow> same_flow a c"
  by (simp add: same_flow_def frame_def)

lemma same_flowD:
  assumes "same_flow st st1"
  shows "frame st st1" "edge_list st1 = edge_list st" "trace st1 = trace st"
    "distances st1 = distances st" "points st1 = points st"
    "vertices st1 = vertices st" "adjacency_list st1 = adjacency_list st"
    "flow_out st1 w = flow_out st w" "dist_of st1 w = dist_of st w"
    "trace_ok nn st1 = trace_ok nn st" "touched st1 u j = touched st u j"
  using assms
  by (simp_all add: same_flow_def frame_def flow_out_def dist_of_def trace_ok_def touched_def)

lemma same_flow_wf: "same_flow st st1 \<Longrightarrow> wf_graph st \<Longrightarrow> wf_graph st1"
  using wf_graph_shape[of st st1] by (simp add: same_flow_def)

lemma augmented_same:
  assumes "same_flow st st1" "augmented st1 st2 a b p"
  shows "augmented st st2 a b p"
  using assms same_flowD[OF assms(1)]
  by (simp add: augmented_def frame_def)

lemma dfs_post_same:
  assumes sf: "same_flow st st1" and post: "dfs_post nn st1 u t res"
  shows "dfs_post nn st u t res"
proof -
  note d = same_flowD[OF sf]
  from post d(1) have fr: "frame st (snd res)" by (auto simp: dfs_post_def intro: frame_trans)
  show ?thesis
  proof (cases "fst res")
    case (Inl e)
    with post fr d show ?thesis by (simp add: dfs_post_def)
  next
    case (Inr p)
    show ?thesis
    proof (cases "p = 0 \<or> u = t")
      case True
      with Inr post fr d show ?thesis by (simp add: dfs_post_def)
    next
      case False
      with Inr post have a: "augmented st1 (snd res) u t p" by (simp add: dfs_post_def)
      note a' = augmented_same[OF sf a]
      from False Inr post fr d a' show ?thesis by (simp add: dfs_post_def)
    qed
  qed
qed

lemma touched_mono:
  "dist_of st u \<le> dist_of st v \<Longrightarrow> touched st v j \<Longrightarrow> touched st u j"
  by (auto simp: touched_def)

lemma touched_edge:
  assumes "hd_of (edge_list st) (idx XOR 1) = u" "hd_of (edge_list st) idx = v"
    "dist_of st v = dist_of st u + 1"
  shows "touched st u idx" "touched st u (idx XOR 1)" "\<not> touched st v idx"
  using assms by (simp_all add: touched_def)

lemma augmented_push_front:
  assumes wf: "wf_graph st"
    and aug: "augmented st st1 v b p"
    and idx: "0 \<le> idx" "idx < int (length (edge_list st))"
    and tl: "hd_of (edge_list st) (idx XOR 1) = u" and hd: "hd_of (edge_list st) idx = v"
    and fr: "frame st1 st2" "distances st2 = distances st1" "points st2 = points st1"
    and fp: "flows_pushed (edge_list st1) (edge_list st2) idx p"
  shows "augmented st st2 u b p"
proof -
  from aug have f1: "frame st st1" and d1: "distances st1 = distances st" "points st1 = points st"
    and o1: "\<And>w. 0 \<le> w \<Longrightarrow> w < vertices st \<Longrightarrow>
        flow_out st1 w = flow_out st w + (if w = v then p else 0) - (if w = b then p else 0)"
    by (simp_all add: augmented_def)
  note wf1 = wf_graph_shape[OF wf f1]
  have l1: "length (edge_list st1) = length (edge_list st)" using f1 by (rule frame_length)
  have V1: "vertices st1 = vertices st" using f1 by (simp add: frame_def)
  have x: "0 \<le> idx XOR 1" "idx XOR 1 < int (length (edge_list st))"
    using idx wf_graphD(3)[OF wf] xor1_lt[of idx "length (edge_list st)"] by simp_all
  have h1: "hd_of (edge_list st1) idx = v" using frame_hd_of[OF f1 idx] hd by simp
  have t1: "hd_of (edge_list st1) (idx XOR 1) = u" using frame_hd_of[OF f1 x] tl by simp
  have o2: "flow_out st2 w = flow_out st w + (if w = u then p else 0) - (if w = b then p else 0)"
    if w: "0 \<le> w" "w < vertices st" for w
  proof -
    have "flow_out st2 w = flow_out st1 w + (if hd_of (edge_list st1) (idx XOR 1) = w then p else 0)
        - (if hd_of (edge_list st1) idx = w then p else 0)"
      using wf1 fr(1) fp idx w unfolding l1[symmetric] V1[symmetric] by (rule flow_out_pushed)
    with o1[OF w] h1 t1 show ?thesis by auto
  qed
  from frame_trans[OF f1 fr(1)] fr(2,3) d1 o2 show ?thesis
    by (simp add: augmented_def)
qed

lemma dfs_post_unchanged:
  assumes "same_flow st st1"
  shows "dfs_post nn st u t (Inl e, st1)"
  using same_flowD[OF assms] by (simp add: dfs_post_def)

lemma dfs_post_zero:
  assumes "same_flow st st1"
  shows "dfs_post nn st u t (Inr 0, st1)"
  using same_flowD[OF assms] by (simp add: dfs_post_def)

lemma DFS_for_safe:
  assumes fin: "\<And>u f st. wf_graph st \<Longrightarrow> length (distances st) = nat (vertices st) \<Longrightarrow>
      trace_ok nn st \<Longrightarrow> 0 \<le> u \<Longrightarrow> u < vertices st \<Longrightarrow> (nn \<longrightarrow> 0 \<le> f) \<Longrightarrow>
      dfs_post nn st u t (DFS_fin n u t f st) \<and> bounded_by nn (Fin f) (DFS_fin n u t f st)"
    and wf: "wf_graph st" and len: "length (distances st) = nat (vertices st)"
    and ok: "trace_ok nn st" and u: "0 \<le> u" "u < vertices st" and ut: "u \<noteq> t"
    and f: "nn \<longrightarrow> (\<forall>x. f = Fin x \<longrightarrow> 0 \<le> x)"
  shows "dfs_post nn st u t (DFS_for n u t f is st) \<and> bounded_by nn f (DFS_for n u t f is st)"
  using wf len ok u
proof (induction "is" arbitrary: st)
  case Nil
  with f show ?case by (simp add: dfs_post_zero bounded_by_def)
next
  case (Cons i rest)
  note wf = Cons.prems(1) and len = Cons.prems(2) and ok = Cons.prems(3) and u = Cons.prems(4,5)
  show ?case
  proof (cases "py_set (last_arc st) u i")
    case None
    then show ?thesis
      by (simp add: DFS_for_fail1 dfs_post_unchanged bounded_by_def)
  next
    case (Some la)
    define st1 where "st1 = st\<lparr>last_arc := la\<rparr>"
    have sf1: "same_flow st st1" by (simp add: st1_def)
    note d1 = same_flowD[OF sf1]
    have wf1: "wf_graph st1" using sf1 wf by (rule same_flow_wf)
    have len1: "length (distances st1) = nat (vertices st1)" using len d1 by simp
    have ok1: "trace_ok nn st1" using ok d1 by simp
    have u1: "0 \<le> u" "u < vertices st1" using u d1 by simp_all
    define adj where "adj = adjacency_list st ! nat u"
    have ga: "py_get (adjacency_list st) u = Some adj"
      using u wf_graphD(2)[OF wf] by (simp add: py_get_in adj_def)
    show ?thesis
    proof (cases "py_get adj i")
      case None
      with Some ga have "DFS_for n u t f (i # rest) st = (Inl IndexError, st1)"
        by (simp add: DFS_for_fail2 st1_def)
      with sf1 show ?thesis by (simp add: dfs_post_unchanged bounded_by_def)
    next
      case idx: (Some idx)
      then have "idx \<in> set (adjacency_list st ! nat u)" unfolding adj_def by (rule py_get_mem)
      with wf_graphD(6)[OF wf u] have i: "0 \<le> idx" "idx < int (length (edge_list st))"
        and tl: "hd_of (edge_list st) (idx XOR 1) = u" by simp_all
      define el where "el = edge_list st"
      define v where "v = hd_of el idx"
      have v: "0 \<le> v" "v < vertices st" using wf_graphD(4)[OF wf i] by (simp_all add: v_def el_def)
      have ge: "py_get (edge_list st) idx = Some (v, cap_of el idx, flow_of el idx)"
        using i by (simp add: py_get_in edge_triple el_def v_def)
      have gv: "py_get (distances st) v = Some (dist_of st v)"
        using v len by (simp add: py_get_in dist_of_def)
      have gu: "py_get (distances st) u = Some (dist_of st u)"
        using u len by (simp add: py_get_in dist_of_def)
      define f1 where "f1 = py_min f (resid el idx)"
      note step = DFS_for_step[OF Some ga idx ge gv gu, of n t f rest,
          folded st1_def resid_def f1_def]
      show ?thesis
      proof (cases "dist_of st v = dist_of st u + 1")
        case False
        with step have e: "DFS_for n u t f (i # rest) st = DFS_for n u t f rest st1" by simp
        from Cons.IH[OF wf1 len1 ok1 u1] show ?thesis
          unfolding e using dfs_post_same[OF sf1] by blast
      next
        case lev: True
        have f1: "nn \<longrightarrow> 0 \<le> f1 \<and> f1 \<le> resid el idx \<and> (\<forall>x. f = Fin x \<longrightarrow> f1 \<le> x)"
        proof
          assume nn
          with ok have "cap_ok el" by (simp add: trace_ok_def edges_ok_def el_def)
          with i have r0: "0 \<le> resid el idx" by (simp add: cap_ok_def resid_def el_def)
          show "0 \<le> f1 \<and> f1 \<le> resid el idx \<and> (\<forall>x. f = Fin x \<longrightarrow> f1 \<le> x)"
            using r0 f \<open>nn\<close> by (cases f) (simp_all add: f1_def)
        qed
        obtain r2 st2 where rec: "DFS_fin n v t f1 st1 = (r2, st2)" by force
        from fin[OF wf1 len1 ok1 v(1), of f1] v(2) d1 f1 rec
        have post2: "dfs_post nn st1 v t (r2, st2)" and bd2: "bounded_by nn (Fin f1) (r2, st2)"
          by simp_all
        from post2 have fr2: "frame st1 st2" and k2: "distances st2 = distances st1"
          "points st2 = points st1" by (simp_all add: dfs_post_def)
        show ?thesis
        proof (cases r2)
          case (Inl e)
          with step lev rec have e: "DFS_for n u t f (i # rest) st = (Inl e, st2)" by simp
          from post2 Inl have "dfs_post nn st1 u t (Inl e, st2)" by (simp add: dfs_post_def)
          with dfs_post_same[OF sf1] show ?thesis unfolding e by (simp add: bounded_by_def)
        next
          case (Inr p)
          show ?thesis
          proof (cases "p = 0")
            case True
            with step lev rec Inr have e: "DFS_for n u t f (i # rest) st = DFS_for n u t f rest st2"
              by simp
            from post2 Inr True have "edge_list st2 = edge_list st1" "trace st2 = trace st1"
              by (simp_all add: dfs_post_def)
            with fr2 k2 have "same_flow st1 st2" by (simp add: same_flow_def)
            with sf1 have sf2: "same_flow st st2" by (rule same_flow_trans)
            note d2 = same_flowD[OF sf2]
            from Cons.IH[of st2] wf len ok u d2 same_flow_wf[OF sf2]
            have "dfs_post nn st2 u t (DFS_for n u t f rest st2) \<and>
                bounded_by nn f (DFS_for n u t f rest st2)" by simp
            then show ?thesis unfolding e using dfs_post_same[OF sf2] by blast
          next
            case False
            have levs: "dist_of st1 v = dist_of st1 u + 1" using lev d1 by simp
            have tl1: "hd_of (edge_list st1) (idx XOR 1) = u" "hd_of (edge_list st1) idx = v"
              using tl d1 by (simp_all add: v_def el_def)
            note te = touched_edge[OF tl1 levs]
            have i1: "0 \<le> idx" "idx < int (length (edge_list st1))" using i d1 by simp_all
            have common: "augmented st1 st2 v t p \<and> trace_ok nn st2 \<and>
                (\<forall>j. 0 \<le> j \<and> j < int (length (edge_list st1)) \<and> \<not> touched st1 v j \<longrightarrow>
                  flow_of (edge_list st2) j = flow_of (edge_list st1) j)"
            proof (cases "v = t")
              case True
              with post2 Inr have same: "edge_list st2 = edge_list st1" "trace st2 = trace st1"
                by (simp_all add: dfs_post_def)
              from fr2 have "adjacency_list st2 = adjacency_list st1" by (simp add: frame_def)
              with same have "flow_out st2 w = flow_out st1 w" for w by (intro flow_out_cong)
              with fr2 k2 True have "augmented st1 st2 v t p" by (simp add: augmented_def)
              moreover have "trace_ok nn st2" using ok1 same by (simp add: trace_ok_def)
              ultimately show ?thesis using same by simp
            next
              case vt: False
              with post2 Inr False show ?thesis by (simp add: dfs_post_def)
            qed
            then have aug2: "augmented st1 st2 v t p" and ok2: "trace_ok nn st2"
              and keep2: "\<And>j. 0 \<le> j \<Longrightarrow> j < int (length (edge_list st1)) \<Longrightarrow>
                  \<not> touched st1 v j \<Longrightarrow> flow_of (edge_list st2) j = flow_of (edge_list st1) j"
              by simp_all
            note wf2 = wf_graph_shape[OF wf1 fr2]
            note l2 = frame_length[OF fr2]
            have i2: "0 \<le> idx" "idx < int (length (edge_list st2))" using i1 l2 by simp_all
            have fl2: "flow_of el idx = flow_of (edge_list st2) idx"
              using keep2[OF i1 te(3)] d1 by (simp add: el_def)
            from push_flow_pushed[OF wf2 i2 fl2, of p] obtain st3 where
              push: "push_flow idx (flow_of el idx) p st2 = (Inr (), st3)" and fr3: "frame st2 st3"
              and k3: "distances st3 = distances st2" "points st3 = points st2"
              and tr3: "trace st3 = edge_list st3 # trace st2"
              and fp: "flows_pushed (edge_list st2) (edge_list st3) idx p"
              by blast
            have e: "DFS_for n u t f (i # rest) st = (Inr p, st3)"
              using step lev rec Inr False push by simp
            have aug3: "augmented st1 st3 u t p"
              using wf1 aug2 i1 tl1 fr3 k3 fp by (rule augmented_push_front)
            have r2: "resid (edge_list st2) idx = resid el idx"
              using frame_cap_of[OF fr2 i1] fl2 d1 by (simp add: resid_def el_def)
            from post2 Inr have p0: "nn \<longrightarrow> 0 \<le> p" by (simp add: dfs_post_def)
            from bd2 Inr have pf: "nn \<longrightarrow> p \<le> f1" by (simp add: bounded_by_def)
            have ok3: "trace_ok nn st3"
              using wf2 ok2 fp tr3
            proof (rule trace_ok_push)
              show "nn \<longrightarrow> 0 \<le> p \<and> p \<le> resid (edge_list st2) idx" using p0 pf f1 r2 by auto
            qed
            have keep3: "flow_of (edge_list st3) j = flow_of (edge_list st1) j"
              if j: "0 \<le> j" "j < int (length (edge_list st1))" "\<not> touched st1 u j" for j
            proof -
              have "j \<noteq> idx" "j \<noteq> idx XOR 1" using j(3) te by auto
              moreover have "flow_of (edge_list st3) j = flow_of (edge_list st2) j
                  + (if j = idx then p else 0) - (if j = idx XOR 1 then p else 0)"
                using fp j(1,2) l2 unfolding flows_pushed_def by simp
              moreover have "\<not> touched st1 v j" using j(3) levs touched_mono[of st1 u v j] by auto
              then have "flow_of (edge_list st2) j = flow_of (edge_list st1) j"
                using j by (intro keep2)
              ultimately show ?thesis by simp
            qed
            have "dfs_post nn st1 u t (Inr p, st3)"
              using False ut aug3 ok3 keep3 p0 frame_trans[OF fr2 fr3] k2 k3
              by (simp add: dfs_post_def)
            moreover have "bounded_by nn f (Inr p, st3)"
              using pf f1 by (auto simp: bounded_by_def)
            ultimately show ?thesis unfolding e using dfs_post_same[OF sf1] by blast
          qed
        qed
      qed
    qed
  qed
qed

lemma DFS_fin_safe:
  assumes "wf_graph st" "length (distances st) = nat (vertices st)" "trace_ok nn st"
    "0 \<le> u" "u < vertices st" "nn \<longrightarrow> 0 \<le> f"
  shows "dfs_post nn st u t (DFS_fin n u t f st) \<and> bounded_by nn (Fin f) (DFS_fin n u t f st)"
  using assms
proof (induction n arbitrary: u f st)
  case 0
  then show ?case by (simp add: dfs_post_unchanged bounded_by_def)
next
  case (Suc n)
  show ?case
  proof (cases "u = t \<or> f = 0")
    case True
    then have "DFS_fin (Suc n) u t f st = (Inr f, st)" by (rule DFS_fin_base)
    with True Suc.prems(6) show ?thesis by (auto simp: dfs_post_def bounded_by_def)
  next
    case False
    show ?thesis
    proof (cases "py_get (last_arc st) u")
      case None
      with False have "DFS_fin (Suc n) u t f st = (Inl IndexError, st)" by (rule DFS_fin_fail)
      then show ?thesis by (simp add: dfs_post_unchanged bounded_by_def)
    next
      case (Some l)
      have ga: "py_get (adjacency_list st) u = Some (adjacency_list st ! nat u)"
        using Suc.prems(4,5) wf_graphD(2)[OF Suc.prems(1)] by (simp add: py_get_in)
      note e = DFS_fin_step[OF False Some ga, of n]
      have ut: "u \<noteq> t" using False by simp
      have f: "nn \<longrightarrow> (\<forall>x. Fin f = Fin x \<longrightarrow> 0 \<le> x)" using Suc.prems(6) by simp
      show ?thesis unfolding e
        using Suc.IH Suc.prems(1,2,3,4,5) ut f by (rule DFS_for_safe)
    qed
  qed
qed

lemma DFS_safe:
  assumes wf: "wf_graph st" and len: "length (distances st) = nat (vertices st)"
    and ok: "trace_ok nn st" and u: "0 \<le> u" "u < vertices st" and ut: "u \<noteq> t"
  shows "\<exists>res. DFS lim u t Infty st = fin_result res \<and> dfs_post nn st u t res"
proof (cases lim)
  case 0
  have "DFS 0 u t Infty st = fin_result (Inl RecursionError, st)" by simp
  then show ?thesis unfolding 0 using dfs_post_unchanged[OF same_flow_refl] by blast
next
  case (Suc n)
  show ?thesis
  proof (cases "py_get (last_arc st) u")
    case None
    with ut have "DFS (Suc n) u t Infty st = fin_result (Inl IndexError, st)" by simp
    then show ?thesis unfolding Suc using dfs_post_unchanged[OF same_flow_refl] by blast
  next
    case (Some l)
    have ga: "py_get (adjacency_list st) u = Some (adjacency_list st ! nat u)"
      using u wf_graphD(2)[OF wf] by (simp add: py_get_in)
    have e: "DFS (Suc n) u t Infty st =
        fin_result (DFS_for n u t Infty [l..int (length (adjacency_list st ! nat u)) - 1] st)"
      using ut Some ga by simp
    have "dfs_post nn st u t (DFS_for n u t Infty [l..int (length (adjacency_list st ! nat u)) - 1] st)
       \<and> bounded_by nn Infty (DFS_for n u t Infty [l..int (length (adjacency_list st ! nat u)) - 1] st)"
    proof (rule DFS_for_safe[OF _ wf len ok u ut])
      show "nn \<longrightarrow> (\<forall>x. Infty = Fin x \<longrightarrow> 0 \<le> x)" by simp
    qed (rule DFS_fin_safe)
    with e show ?thesis unfolding Suc by blast
  qed
qed

subsection \<open>The loops of the blocking-flow strategy\<close>

lemma DFS_same_vertex:
  "DFS lim t t Infty st = (if lim = 0 then (Inl RecursionError, st) else (Inr Infty, st))"
  by (cases lim) simp_all

lemma dfs_post_flow_state:
  assumes fs: "flow_state nn s t st" and post: "dfs_post nn st s t res" and st: "s \<noteq> t"
  shows "flow_state nn s t (snd res) \<and> vertices (snd res) = vertices st \<and>
    distances (snd res) = distances st"
proof -
  from post have fr: "frame st (snd res)" and d: "distances (snd res) = distances st"
    by (simp_all add: dfs_post_def)
  from fr have V: "vertices (snd res) = vertices st" by (simp add: frame_def)
  have "flow_state nn s t (snd res)"
  proof (cases "fst res")
    case (Inl e)
    with post have "edge_list (snd res) = edge_list st" "trace (snd res) = trace st"
      by (simp_all add: dfs_post_def)
    with fs fr show ?thesis by (rule flow_state_cong)
  next
    case (Inr p)
    show ?thesis
    proof (cases "p = 0")
      case True
      with Inr post have "edge_list (snd res) = edge_list st" "trace (snd res) = trace st"
        by (simp_all add: dfs_post_def)
      with fs fr show ?thesis by (rule flow_state_cong)
    next
      case False
      with Inr post st have "augmented st (snd res) s t p" "trace_ok nn (snd res)"
        by (simp_all add: dfs_post_def)
      with fs show ?thesis by (rule flow_state_augmented)
    qed
  qed
  with V d show ?thesis by simp
qed

lemma snd_fin_result [simp]: "snd (fin_result res) = snd res"
  by (cases res; cases "fst res") auto

lemma DFS_top_safe:
  assumes fs: "flow_state nn s t st" and len: "length (distances st) = nat (vertices st)"
    and s: "0 \<le> s" "s < vertices st"
  shows "flow_state nn s t (snd (DFS lim s t Infty st)) \<and>
    vertices (snd (DFS lim s t Infty st)) = vertices st \<and>
    distances (snd (DFS lim s t Infty st)) = distances st"
proof (cases "s = t")
  case True
  with fs show ?thesis by (simp add: DFS_same_vertex)
next
  case False
  from fs have wf: "wf_graph st" and ok: "trace_ok nn st" by (simp_all add: flow_state_def)
  from DFS_safe[OF wf len ok s False, of lim] obtain res where
    r: "DFS lim s t Infty st = fin_result res" "dfs_post nn st s t res" by blast
  from dfs_post_flow_state[OF fs r(2) False] r(1) show ?thesis by simp
qed

lemma dinic_phase_safe:
  assumes "dinic_phase lim s t f mf st = Some y"
    and "flow_state nn s t st" and "length (distances st) = nat (vertices st)"
    and "0 \<le> s" "s < vertices st"
  shows "flow_state nn s t (snd y) \<and> vertices (snd y) = vertices st"
  using assms
proof (induction rule: dinic_phase_induct)
  case (step loop lim s t f mf st y)
  show ?case
  proof (cases "f = Fin 0")
    case True
    with step(2) have "y = (Inr mf, st)" by simp
    with step.prems show ?thesis by simp
  next
    case False
    obtain r1 st1 where d: "DFS lim s t Infty st = (r1, st1)" by force
    from DFS_top_safe[OF step.prems(1,2,3,4), of lim] d
    have p: "flow_state nn s t st1" "vertices st1 = vertices st" "distances st1 = distances st"
      by simp_all
    show ?thesis
    proof (cases r1)
      case (Inl e)
      with False d step(2) have "y = (Inl e, st1)" by simp
      with p show ?thesis by simp
    next
      case (Inr f1)
      with False d step(2) have "loop lim s t f1 (nplus mf f) st1 = Some y" by simp
      from step.IH[OF this p(1)] p(2,3) step.prems show ?thesis by simp
    qed
  qed
qed

lemma dinic_while_safe:
  assumes "dinic_while lim s t mf st = Some y"
    and "flow_state nn s t st" and "0 \<le> s" "s < vertices st" and "0 \<le> t" "t < vertices st"
  shows "flow_state nn s t (snd y) \<and> vertices (snd y) = vertices st"
  using assms
proof (induction rule: dinic_while_induct)
  case (step loop lim s t mf st y)
  note fs = step.prems(1) and s = step.prems(2,3) and t = step.prems(4,5)
  from fs have wf: "wf_graph st" by (simp add: flow_state_def)
  from BFS_total[OF wf s t] obtain b st1 where
    b: "BFS s t st = Some (Inr b, st1)" "bfs_tree s st1" "frame st st1"
      "edge_list st1 = edge_list st" "trace st1 = trace st"
    by blast
  from b(3) have V1: "vertices st1 = vertices st" by (simp add: frame_def)
  have fs1: "flow_state nn s t st1" using fs b(3,4,5) by (rule flow_state_cong)
  show ?case
  proof (cases b)
    case False
    with b(1) step(2) have "y = (Inr mf, st1)" by simp
    with fs1 V1 show ?thesis by simp
  next
    case True
    define st2 where "st2 = st1\<lparr>last_arc := replicate (nat (vertices st1)) 0\<rparr>"
    have fs2: "flow_state nn s t st2"
      using fs1 by (rule flow_state_cong) (simp_all add: st2_def)
    have len2: "length (distances st2) = nat (vertices st2)"
      using bfs_treeD(1)[OF b(2)] by (simp add: st2_def)
    have V2: "vertices st2 = vertices st" using V1 by (simp add: st2_def)
    obtain r3 st3 where d: "DFS lim s t Infty st2 = (r3, st3)" by force
    from DFS_top_safe[OF fs2 len2, of lim] s V2 d
    have p3: "flow_state nn s t st3" "vertices st3 = vertices st" "distances st3 = distances st2"
      by simp_all
    show ?thesis
    proof (cases r3)
      case (Inl e)
      with True b(1) d step(2) have "y = (Inl e, st3)" by (simp add: Let_def st2_def)
      with p3 show ?thesis by simp
    next
      case (Inr f)
      with True b(1) d step(2) obtain r4 st4 where
        ph: "dinic_phase lim s t f mf st3 = Some (r4, st4)"
        by (cases "dinic_phase lim s t f mf st3") (auto simp: Let_def st2_def)
      have len3: "length (distances st3) = nat (vertices st3)" using len2 p3 V2 by simp
      from dinic_phase_safe[OF ph p3(1) len3] s p3(2)
      have p4: "flow_state nn s t st4" "vertices st4 = vertices st" by simp_all
      show ?thesis
      proof (cases r4)
        case (Inl e)
        with ph Inr True b(1) d step(2) have "y = (Inl e, st4)" by (simp add: Let_def st2_def)
        with p4 show ?thesis by simp
      next
        case r4: (Inr mf1)
        with ph Inr True b(1) d step(2) have "loop lim s t mf1 st4 = Some y"
          by (simp add: Let_def st2_def)
        from step.IH[OF this p4(1)] p4(2) s t show ?thesis by simp
      qed
    qed
  qed
qed

subsection \<open>Runs on a graph built by edge insertion\<close>

lemma fresh_flow_zero:
  assumes "fresh st" "0 \<le> i" "i < int (length (edge_list st))"
  shows "flow_of (edge_list st) i = 0"
proof -
  from assms(2,3) have "edge_list st ! nat i \<in> set (edge_list st)" by simp
  with assms(1) show ?thesis by (simp add: fresh_def flow_of_def)
qed

lemma caps_nonneg_cap_of:
  assumes "caps_nonneg el" "0 \<le> i" "i < int (length el)"
  shows "0 \<le> cap_of el i"
proof -
  from assms(2,3) have "el ! nat i \<in> set el" by simp
  with assms(1) show ?thesis by (simp add: caps_nonneg_def cap_of_def)
qed

lemma fresh_flow_state:
  assumes wf: "wf_graph st" and fr: "fresh st" and nn: "nn \<longrightarrow> caps_nonneg (edge_list st)"
  shows "flow_state nn s t st"
proof -
  note z = fresh_flow_zero[OF fr]
  have x: "0 \<le> i XOR 1 \<and> i XOR 1 < int (length (edge_list st))"
    if "0 \<le> i" "i < int (length (edge_list st))" for i
    using that wf_graphD(3)[OF wf] xor1_lt[of i "length (edge_list st)"] by simp
  have a: "antisym (edge_list st)"
    unfolding antisym_def using z x by simp
  have c: "nn \<longrightarrow> cap_ok (edge_list st)"
    unfolding cap_ok_def using z nn caps_nonneg_cap_of[of "edge_list st"] by simp
  have t: "trace_ok nn st" using a c fr wf_graphD(3)[OF wf]
    by (simp add: trace_ok_def edges_ok_def fresh_def)
  have "flow_out st w = 0" if w: "0 \<le> w" "w < vertices st" for w
  proof -
    have "flow_out st w = (\<Sum>i \<in> set (adjacency_list st ! nat w). flow_of (edge_list st) i)"
      using wf w by (rule flow_out_sum)
    also have "\<dots> = (\<Sum>i \<in> set (adjacency_list st ! nat w). 0)"
      by (rule sum.cong) (use wf_graphD(6)[OF wf w] z in auto)
    finally show ?thesis by simp
  qed
  then have "conserved s t st" by (simp add: conserved_def)
  with wf t show ?thesis by (simp add: flow_state_def)
qed

lemma flow_state_run_flag [simp]:
  "flow_state nn s t (st\<lparr>has_been_run := b\<rparr>) = flow_state nn s t st"
  by (simp add: flow_state_def wf_graph_def trace_ok_def conserved_def flow_out_def)

text \<open>Every state a run of either entry point ends in, whatever its outcome.\<close>

lemma run_safe:
  assumes b: "build V es = (Inr (), g)" and v: "valid_edges V es"
    and s: "0 \<le> s" "s < V" and t: "0 \<le> t" "t < V"
    and nn: "nn \<longrightarrow> nonneg_caps es"
    and run: "edmonds_karp lim s t g = Some (r, g1) \<or> dinic lim s t g = Some (r, g1)"
  shows "flow_state nn s t g \<and> flow_state nn s t g1 \<and> vertices g1 = V \<and> trace g = []"
proof -
  from s have V0: "0 \<le> V" by simp
  from build_wf[OF V0 v b] have g: "wf_graph g" "vertices g = V" "fresh g"
    "nonneg_caps es \<longrightarrow> caps_nonneg (edge_list g)" by simp_all
  from nn g(4) have "nn \<longrightarrow> caps_nonneg (edge_list g)" by simp
  with g have fs: "flow_state nn s t g" by (intro fresh_flow_state)
  from g(3) have nr: "\<not> has_been_run g" and tr: "trace g = []" by (simp_all add: fresh_def)
  define g0 where "g0 = g\<lparr>has_been_run := True\<rparr>"
  have fs0: "flow_state nn s t g0" using fs by (simp add: g0_def)
  have V0: "vertices g0 = V" using g(2) by (simp add: g0_def)
  from run have "flow_state nn s t g1 \<and> vertices g1 = V"
  proof
    assume "edmonds_karp lim s t g = Some (r, g1)"
    with nr have "edmonds_karp_while lim s t (Fin 0) g0 = Some (r, g1)"
      by (simp add: edmonds_karp_def assert_has_not_already_been_run_def g0_def)
    from edmonds_karp_while_safe[OF this fs0] s t V0 show ?thesis by simp
  next
    assume "dinic lim s t g = Some (r, g1)"
    with nr have "dinic_while lim s t (Fin 0) g0 = Some (r, g1)"
      by (simp add: dinic_def assert_has_not_already_been_run_def g0_def)
    from dinic_while_safe[OF this fs0] s t V0 show ?thesis by simp
  qed
  with fs tr show ?thesis by simp
qed

subsection \<open>Flow into a vertex\<close>

lemma flow_in_sum:
  "flow_in st w =
     (\<Sum>i \<in> {i. 0 \<le> i \<and> i < int (length (edge_list st)) \<and> hd_of (edge_list st) i = w}.
        flow_of (edge_list st) i)"
proof -
  define el where "el = edge_list st"
  define g where "g = (\<lambda>i. if hd_of el i = w then flow_of el i else 0)"
  have "flow_in st w = sum_list (map (\<lambda>e. if fst e = w then snd (snd e) else 0) el)"
    unfolding flow_in_def el_def by (rule sum_list_map_filter')
  also have "\<dots> = (\<Sum>k = 0..<length el. if fst (el ! k) = w then snd (snd (el ! k)) else 0)"
    by (simp add: sum_list_sum_nth)
  also have "\<dots> = (\<Sum>k = 0..<length el. g (int k))"
    by (rule sum.cong) (simp_all add: g_def hd_of_def flow_of_def)
  also have "\<dots> = (\<Sum>i \<in> {i. 0 \<le> i \<and> i < int (length el)}. g i)"
    by (rule sum.reindex_bij_witness[where i = nat and j = int]) auto
  also have "\<dots> = (\<Sum>i \<in> {i. 0 \<le> i \<and> i < int (length el) \<and> hd_of el i = w}. flow_of el i)"
    unfolding g_def
    by (rule sum.mono_neutral_cong_right) auto
  finally show ?thesis by (simp add: el_def)
qed

lemma flow_in_neg:
  assumes wf: "wf_graph st" and a: "antisym (edge_list st)" and w: "0 \<le> w" "w < vertices st"
  shows "flow_in st w = - flow_out st w"
proof -
  define el where "el = edge_list st"
  have x: "0 \<le> i XOR 1 \<and> i XOR 1 < int (length el)" if "0 \<le> i" "i < int (length el)" for i
    using that wf_graphD(3)[OF wf] xor1_lt[of i "length el"] by (simp add: el_def)
  have "flow_in st w = (\<Sum>i \<in> {i. 0 \<le> i \<and> i < int (length el) \<and> hd_of el i = w}. flow_of el i)"
    unfolding el_def by (rule flow_in_sum)
  also have "\<dots> = (\<Sum>j \<in> {j. 0 \<le> j \<and> j < int (length el) \<and> hd_of el (j XOR 1) = w}.
      flow_of el (j XOR 1))"
    by (rule sum.reindex_bij_witness[where i = "\<lambda>j. j XOR 1" and j = "\<lambda>i. i XOR 1"])
      (use x in auto)
  also have "\<dots> = (\<Sum>j \<in> {j. 0 \<le> j \<and> j < int (length el) \<and> hd_of el (j XOR 1) = w}.
      - flow_of el j)"
    by (rule sum.cong) (use a in \<open>auto simp: antisym_def el_def\<close>)
  also have "\<dots> = - (\<Sum>j \<in> set (adjacency_list st ! nat w). flow_of el j)"
    using wf_graphD(6)[OF wf w] by (simp add: sum_negf el_def)
  also have "\<dots> = - flow_out st w"
    using flow_out_sum[OF wf w] by (simp add: el_def)
  finally show ?thesis .
qed

text \<open>The four sums are sums over the lists of stored flows.\<close>

lemma flow_sums_of_lists:
  "flow_out st v = sum_list (out_flows st v)"
  "flow_in st v = sum_list (in_flows st v)"
  "sent_out st v = sum_list (map (max 0) (out_flows st v))"
  "sent_in st v = sum_list (map (max 0) (in_flows st v))"
  by (simp_all add: flow_out_def flow_in_def sent_out_def sent_in_def out_flows_def in_flows_def
      flow_of_def comp_def)

lemma sent_in_sum:
  "sent_in st w =
     (\<Sum>i \<in> {i. 0 \<le> i \<and> i < int (length (edge_list st)) \<and> hd_of (edge_list st) i = w}.
        max 0 (flow_of (edge_list st) i))"
proof -
  define el where "el = edge_list st"
  define g where "g = (\<lambda>i. if hd_of el i = w then max 0 (flow_of el i) else 0)"
  have "sent_in st w = sum_list (map (\<lambda>e. if fst e = w then max 0 (snd (snd e)) else 0) el)"
    unfolding sent_in_def el_def by (rule sum_list_map_filter')
  also have "\<dots> = (\<Sum>k = 0..<length el. if fst (el ! k) = w then max 0 (snd (snd (el ! k))) else 0)"
    by (simp add: sum_list_sum_nth)
  also have "\<dots> = (\<Sum>k = 0..<length el. g (int k))"
    by (rule sum.cong) (simp_all add: g_def hd_of_def flow_of_def)
  also have "\<dots> = (\<Sum>i \<in> {i. 0 \<le> i \<and> i < int (length el)}. g i)"
    by (rule sum.reindex_bij_witness[where i = nat and j = int]) auto
  also have "\<dots> = (\<Sum>i \<in> {i. 0 \<le> i \<and> i < int (length el) \<and> hd_of el i = w}.
      max 0 (flow_of el i))"
    unfolding g_def
    by (rule sum.mono_neutral_cong_right) auto
  finally show ?thesis by (simp add: el_def)
qed

lemma sent_balance:
  assumes wf: "wf_graph st" and a: "antisym (edge_list st)" and w: "0 \<le> w" "w < vertices st"
  shows "sent_out st w - sent_in st w = flow_out st w"
proof -
  define el where "el = edge_list st"
  define A where "A = set (adjacency_list st ! nat w)"
  have A: "A = {j. 0 \<le> j \<and> j < int (length el) \<and> hd_of el (j XOR 1) = w}"
    using wf_graphD(6)[OF wf w] by (simp add: A_def el_def)
  have x: "0 \<le> i XOR 1 \<and> i XOR 1 < int (length el)" if "0 \<le> i" "i < int (length el)" for i
    using that wf_graphD(3)[OF wf] xor1_lt[of i "length el"] by (simp add: el_def)
  have "sent_in st w = (\<Sum>i \<in> {i. 0 \<le> i \<and> i < int (length el) \<and> hd_of el i = w}.
      max 0 (flow_of el i))"
    unfolding el_def by (rule sent_in_sum)
  also have "\<dots> = (\<Sum>j \<in> A. max 0 (flow_of el (j XOR 1)))"
    unfolding A
    by (rule sum.reindex_bij_witness[where i = "\<lambda>j. j XOR 1" and j = "\<lambda>i. i XOR 1"])
      (use x in auto)
  also have "\<dots> = (\<Sum>j \<in> A. max 0 (- flow_of el j))"
    unfolding A by (rule sum.cong) (use a in \<open>auto simp: antisym_def el_def\<close>)
  finally have i: "sent_in st w = (\<Sum>j \<in> A. max 0 (- flow_of el j))" .
  have o: "sent_out st w = (\<Sum>j \<in> A. max 0 (flow_of el j))"
    unfolding sent_out_def A_def el_def using wf_graphD(5)[OF wf w]
    by (rule sum_list_distinct_conv_sum_set)
  have "sent_out st w - sent_in st w = (\<Sum>j \<in> A. max 0 (flow_of el j) - max 0 (- flow_of el j))"
    unfolding i o by (simp add: sum_subtractf)
  also have "\<dots> = (\<Sum>j \<in> A. flow_of el j)"
    by (rule sum.cong) auto
  also have "\<dots> = flow_out st w"
    using flow_out_sum[OF wf w] by (simp add: el_def A_def)
  finally show ?thesis .
qed

subsection \<open>Cuts\<close>

lemma finite_int_range [simp]: "finite {i::int. 0 \<le> i \<and> i < n \<and> P i}"
  by (rule finite_subset[of _ "{0..<n}"]) auto

lemma edges_from_finite [simp]: "finite (edges_from st X)"
  by (simp add: edges_from_def)

lemma cut_edges_finite [simp]: "finite (cut_edges st X)"
  by (rule finite_subset[of _ "edges_from st X"]) (auto simp: cut_edges_def)

lemma sum_flow_out:
  assumes wf: "wf_graph st" and X: "X \<subseteq> {v. 0 \<le> v \<and> v < vertices st}"
  shows "(\<Sum>w \<in> X. flow_out st w) = (\<Sum>i \<in> edges_from st X. flow_of (edge_list st) i)"
proof -
  define el where "el = edge_list st"
  have fX: "finite X" by (rule finite_subset[OF X]) simp
  have "(\<Sum>w \<in> X. flow_out st w) =
      (\<Sum>w \<in> X. \<Sum>i \<in> {i \<in> edges_from st X. hd_of el (i XOR 1) = w}. flow_of el i)"
  proof (rule sum.cong[OF refl])
    fix w assume w: "w \<in> X"
    with X have r: "0 \<le> w" "w < vertices st" by auto
    have "set (adjacency_list st ! nat w) = {i \<in> edges_from st X. hd_of el (i XOR 1) = w}"
      using wf_graphD(6)[OF wf r] w by (auto simp: edges_from_def el_def)
    with flow_out_sum[OF wf r]
    show "flow_out st w = (\<Sum>i \<in> {i \<in> edges_from st X. hd_of el (i XOR 1) = w}. flow_of el i)"
      by (simp add: el_def)
  qed
  also have "\<dots> = (\<Sum>i \<in> edges_from st X. flow_of el i)"
    by (rule sum.group) (use fX in \<open>auto simp: edges_from_def el_def\<close>)
  finally show ?thesis by (simp add: el_def)
qed

lemma inner_flow_zero:
  assumes wf: "wf_graph st" and a: "antisym (edge_list st)"
  shows "(\<Sum>i \<in> {i \<in> edges_from st X. hd_of (edge_list st) i \<in> X}. flow_of (edge_list st) i) = 0"
proof -
  define el where "el = edge_list st"
  define S where "S = {i \<in> edges_from st X. hd_of el i \<in> X}"
  have x: "0 \<le> i XOR 1 \<and> i XOR 1 < int (length el)" if "0 \<le> i" "i < int (length el)" for i
    using that wf_graphD(3)[OF wf] xor1_lt[of i "length el"] by (simp add: el_def)
  have "(\<Sum>i \<in> S. flow_of el i) = (\<Sum>j \<in> S. flow_of el (j XOR 1))"
    by (rule sum.reindex_bij_witness[where i = "\<lambda>j. j XOR 1" and j = "\<lambda>i. i XOR 1"])
      (use x in \<open>auto simp: S_def edges_from_def el_def\<close>)
  also have "\<dots> = (\<Sum>j \<in> S. - flow_of el j)"
    by (rule sum.cong) (use a in \<open>auto simp: antisym_def el_def S_def edges_from_def\<close>)
  also have "\<dots> = - (\<Sum>j \<in> S. flow_of el j)" by (simp add: sum_negf)
  finally show ?thesis by (simp add: S_def el_def)
qed

lemma flow_across_cut:
  assumes wf: "wf_graph st" and a: "antisym (edge_list st)" and c: "conserved s t st"
    and X: "X \<subseteq> {v. 0 \<le> v \<and> v < vertices st}" and s: "s \<in> X" and t: "t \<notin> X"
  shows "flow_out st s = (\<Sum>i \<in> cut_edges st X. flow_of (edge_list st) i)"
proof -
  define el where "el = edge_list st"
  have fX: "finite X" by (rule finite_subset[OF X]) simp
  have z: "flow_out st w = 0" if "w \<in> X - {s}" for w
    using that c X t by (auto simp: conserved_def)
  have "flow_out st s = (\<Sum>w \<in> X. flow_out st w)"
    using fX s z by (simp add: sum.remove[of X s])
  also have "\<dots> = (\<Sum>i \<in> edges_from st X. flow_of el i)"
    unfolding el_def using wf X by (rule sum_flow_out)
  also have "edges_from st X = {i \<in> edges_from st X. hd_of el i \<in> X} \<union> cut_edges st X"
    by (auto simp: cut_edges_def el_def)
  also have "(\<Sum>i \<in> \<dots>. flow_of el i) =
      (\<Sum>i \<in> {i \<in> edges_from st X. hd_of el i \<in> X}. flow_of el i) +
      (\<Sum>i \<in> cut_edges st X. flow_of el i)"
    by (rule sum.union_disjoint) (auto simp: cut_edges_def el_def)
  also have "\<dots> = (\<Sum>i \<in> cut_edges st X. flow_of el i)"
    using inner_flow_zero[OF wf a, of X] by (simp add: el_def)
  finally show ?thesis by (simp add: el_def)
qed

lemma weak_duality:
  assumes wf: "wf_graph st" and a: "antisym (edge_list st)" and co: "cap_ok (edge_list st)"
    and c: "conserved s t st"
    and X: "X \<subseteq> {v. 0 \<le> v \<and> v < vertices st}" and s: "s \<in> X" and t: "t \<notin> X"
  shows "flow_out st s \<le> cut_capacity st X"
  unfolding flow_across_cut[OF wf a c X s t] cut_capacity_def
  by (rule sum_mono) (use co in \<open>auto simp: cap_ok_def cut_edges_def edges_from_def\<close>)

lemma saturated_cut:
  assumes wf: "wf_graph st" and a: "antisym (edge_list st)" and co: "cap_ok (edge_list st)"
    and c: "conserved s t st" and cl: "closed_for st [] {}"
    and s: "0 \<le> s" "s < vertices st" "dist_of st s \<noteq> - 1"
    and t: "dist_of st t = - 1"
  shows "flow_out st s = cut_capacity st (reached st)"
proof -
  have X: "reached st \<subseteq> {v. 0 \<le> v \<and> v < vertices st}" by (auto simp: reached_def)
  have sX: "s \<in> reached st" using s by (simp add: reached_def)
  have tX: "t \<notin> reached st" using t by (simp add: reached_def)
  have "flow_of (edge_list st) i = cap_of (edge_list st) i" if i: "i \<in> cut_edges st (reached st)" for i
  proof -
    from i have r: "0 \<le> i" "i < int (length (edge_list st))"
      and tl: "dist_of st (hd_of (edge_list st) (i XOR 1)) \<noteq> - 1"
      and hd: "hd_of (edge_list st) i \<notin> reached st"
      by (auto simp: cut_edges_def edges_from_def reached_def)
    from wf_graphD(4)[OF wf r] hd have "dist_of st (hd_of (edge_list st) i) = - 1"
      by (simp add: reached_def)
    with cl r tl have "\<not> 0 < resid (edge_list st) i"
      unfolding closed_for_def by auto
    moreover from co r have "flow_of (edge_list st) i \<le> cap_of (edge_list st) i"
      by (simp add: cap_ok_def)
    ultimately show ?thesis by (simp add: resid_def)
  qed
  then show ?thesis
    unfolding flow_across_cut[OF wf a c X sX tX] cut_capacity_def by (intro sum.cong) auto
qed

lemma frame_cut_edges:
  assumes wf: "wf_graph st" and fr: "frame st st1"
  shows "cut_edges st1 X = cut_edges st X"
proof -
  have h: "hd_of (edge_list st1) i = hd_of (edge_list st) i \<and>
      hd_of (edge_list st1) (i XOR 1) = hd_of (edge_list st) (i XOR 1)"
    if i: "0 \<le> i" "i < int (length (edge_list st))" for i
  proof -
    from i wf_graphD(3)[OF wf] have "0 \<le> i XOR 1" "i XOR 1 < int (length (edge_list st))"
      using xor1_lt[of i "length (edge_list st)"] by simp_all
    with i show ?thesis using frame_hd_of[OF fr] by simp
  qed
  show ?thesis
    unfolding cut_edges_def edges_from_def frame_length[OF fr]
    using h by auto
qed

lemma frame_cut_capacity:
  assumes wf: "wf_graph st" and fr: "frame st st1"
  shows "cut_capacity st1 X = cut_capacity st X"
  unfolding cut_capacity_def frame_cut_edges[OF wf fr]
  by (rule sum.cong) (use frame_cap_of[OF fr] in \<open>auto simp: cut_edges_def edges_from_def\<close>)

text \<open>Two flows of one network that both saturate a cut have the same value.\<close>

lemma saturating_flows_agree:
  assumes wf: "wf_graph g" and f1: "frame g st1" and f2: "frame g st2"
    and fs1: "flow_state True s t st1" and fs2: "flow_state True s t st2"
    and cl1: "closed_for st1 [] {}" and cl2: "closed_for st2 [] {}"
    and s: "0 \<le> s" "s < vertices g" and s1: "dist_of st1 s \<noteq> - 1" and s2: "dist_of st2 s \<noteq> - 1"
    and t1: "dist_of st1 t = - 1" and t2: "dist_of st2 t = - 1"
  shows "flow_out st1 s = flow_out st2 s"
proof -
  from f1 f2 have V: "vertices st1 = vertices g" "vertices st2 = vertices g"
    by (simp_all add: frame_def)
  from fs1 have p1: "wf_graph st1" "antisym (edge_list st1)" "cap_ok (edge_list st1)"
      "conserved s t st1"
    by (simp_all add: flow_state_def trace_ok_def edges_ok_def)
  from fs2 have p2: "wf_graph st2" "antisym (edge_list st2)" "cap_ok (edge_list st2)"
      "conserved s t st2"
    by (simp_all add: flow_state_def trace_ok_def edges_ok_def)
  have e1: "flow_out st1 s = cut_capacity st1 (reached st1)"
    using p1 cl1 s s1 t1 V by (intro saturated_cut) simp_all
  have e2: "flow_out st2 s = cut_capacity st2 (reached st2)"
    using p2 cl2 s s2 t2 V by (intro saturated_cut) simp_all
  have "flow_out st1 s \<le> cut_capacity st1 (reached st2)"
    using p1 s s2 t2 V by (intro weak_duality) (auto simp: reached_def)
  also have "\<dots> = cut_capacity st2 (reached st2)"
    by (simp add: frame_cut_capacity[OF wf f1] frame_cut_capacity[OF wf f2])
  finally have a: "flow_out st1 s \<le> flow_out st2 s" by (simp add: e2)
  have "flow_out st2 s \<le> cut_capacity st2 (reached st1)"
    using p2 s s1 t1 V by (intro weak_duality) (auto simp: reached_def)
  also have "\<dots> = cut_capacity st1 (reached st1)"
    by (simp add: frame_cut_capacity[OF wf f1] frame_cut_capacity[OF wf f2])
  finally have b: "flow_out st2 s \<le> flow_out st1 s" by (simp add: e1)
  from a b show ?thesis by simp
qed

subsection \<open>The shortest-augmenting-path strategy returns\<close>

lemma flow_out_le_capacity:
  assumes wf: "wf_graph st" and co: "cap_ok (edge_list st)" and v: "0 \<le> v" "v < vertices st"
  shows "flow_out st v \<le> out_capacity st v"
  unfolding flow_out_def out_capacity_def
  by (rule sum_list_mono) (use wf_graphD(6)[OF wf v] co in \<open>auto simp: cap_ok_def\<close>)

lemma frame_out_capacity:
  assumes wf: "wf_graph st" and fr: "frame st st1" and v: "0 \<le> v" "v < vertices st"
  shows "out_capacity st1 v = out_capacity st v"
proof -
  from fr have a: "adjacency_list st1 = adjacency_list st" by (simp add: frame_def)
  have "map (cap_of (edge_list st1)) (adjacency_list st ! nat v) =
      map (cap_of (edge_list st)) (adjacency_list st ! nat v)"
    by (rule map_cong[OF refl]) (use wf_graphD(6)[OF wf v] frame_cap_of[OF fr] in auto)
  then show ?thesis unfolding out_capacity_def a by (rule arg_cong)
qed

lemma flow_state_capacity:
  assumes "flow_state True s t st" "0 \<le> v" "v < vertices st"
  shows "flow_out st v \<le> out_capacity st v"
  using assms by (intro flow_out_le_capacity) (simp_all add: flow_state_def trace_ok_def edges_ok_def)

text \<open>The loop of \<open>edmonds_karp\<close> returns, with the flow out of the source added to the
  count and a level structure that does not reach the sink.\<close>

lemma edmonds_karp_while_total:
  assumes fs: "flow_state True s t st" and s: "0 \<le> s" "s < vertices st"
    and t: "0 \<le> t" "t < vertices st" and st: "s \<noteq> t" and lim: "vertices st \<le> int lim"
  shows "\<exists>m1 st1. edmonds_karp_while lim s t (Fin m) st = Some (Inr (Fin m1), st1) \<and>
      flow_state True s t st1 \<and> frame st st1 \<and>
      m1 - m = flow_out st1 s - flow_out st s \<and>
      closed_for st1 [] {} \<and> dist_of st1 s \<noteq> - 1 \<and> dist_of st1 t = - 1"
  using fs s t lim
proof (induction "nat (out_capacity st s - flow_out st s)" arbitrary: m st rule: less_induct)
  case less
  note fs = less.prems(1) and s = less.prems(2,3) and t = less.prems(4,5) and lim = less.prems(6)
  from edmonds_karp_iteration[OF fs s t, of lim]
  obtain b st1 where B: "BFS s t st = Some (Inr b, st1)" and fs1: "flow_state True s t st1"
    and V1: "vertices st1 = vertices st" and o1: "flow_out st1 s = flow_out st s"
    and fr1: "frame st st1" and tree: "bfs_tree s st1"
    and nb: "\<not> b \<longrightarrow> dist_of st1 t = - 1 \<and> closed_for st1 [] {}"
    and yb: "b \<longrightarrow> (\<exists>r st2. send_one_flow lim s t Infty st1 = (r, st2) \<and>
         (case r of
            Inl e \<Rightarrow> e = RecursionError \<and> st2 = st1 \<and> (s \<noteq> t \<longrightarrow> lim \<le> nat (dist_of st1 t))
          | Inr x \<Rightarrow> flow_state True s t st2 \<and> vertices st2 = vertices st \<and> frame st1 st2 \<and>
              (if s = t then x = Infty \<and> st2 = st1
               else (\<exists>p. x = Fin p \<and> 0 < p \<and> flow_out st2 s = flow_out st s + p))))"
    by blast
  have d0: "dist_of st1 s \<noteq> - 1" using bfs_treeD(5)[OF tree] by simp
  show ?case
  proof (cases b)
    case False
    with B have "edmonds_karp_while lim s t (Fin m) st = Some (Inr (Fin m), st1)"
      by (subst edmonds_karp_while.simps) simp
    with False nb fs1 fr1 o1 d0 show ?thesis by simp
  next
    case True
    with yb obtain r st2 where S: "send_one_flow lim s t Infty st1 = (r, st2)"
      and R: "(case r of
            Inl e \<Rightarrow> e = RecursionError \<and> st2 = st1 \<and> (s \<noteq> t \<longrightarrow> lim \<le> nat (dist_of st1 t))
          | Inr x \<Rightarrow> flow_state True s t st2 \<and> vertices st2 = vertices st \<and> frame st1 st2 \<and>
              (if s = t then x = Infty \<and> st2 = st1
               else (\<exists>p. x = Fin p \<and> 0 < p \<and> flow_out st2 s = flow_out st s + p)))"
      by blast
    have bound: "dist_of st1 t < vertices st1"
      using tree t V1 by (intro bfs_tree_bound[of s]) simp_all
    show ?thesis
    proof (cases r)
      case (Inl e)
      with R st have "lim \<le> nat (dist_of st1 t)" by simp
      with bound lim V1 t have False by linarith
      then show ?thesis ..
    next
      case (Inr x)
      with R st obtain p where fs2: "flow_state True s t st2" and V2: "vertices st2 = vertices st"
        and fr2: "frame st1 st2" and x: "x = Fin p" and p: "0 < p"
        and o2: "flow_out st2 s = flow_out st s + p"
        by auto
      have step: "edmonds_karp_while lim s t (Fin m) st =
          edmonds_karp_while lim s t (Fin (m + p)) st2"
        using B True S Inr x p by (subst edmonds_karp_while.simps) simp
      have fr: "frame st st2" using fr1 fr2 by (rule frame_trans)
      have wf: "wf_graph st" using fs by (simp add: flow_state_def)
      have c2: "out_capacity st2 s = out_capacity st s"
        using wf fr s by (rule frame_out_capacity)
      have le2: "flow_out st2 s \<le> out_capacity st2 s"
        using fs2 s V2 by (intro flow_state_capacity[of s t]) simp_all
      have less: "nat (out_capacity st2 s - flow_out st2 s) < nat (out_capacity st s - flow_out st s)"
        using c2 le2 o2 p by simp
      from less.hyps[OF less fs2, of "m + p"] s t lim V2
      obtain m1 st3 where E: "edmonds_karp_while lim s t (Fin (m + p)) st2 = Some (Inr (Fin m1), st3)"
        and fs3: "flow_state True s t st3" and fr3: "frame st2 st3"
        and v3: "m1 - (m + p) = flow_out st3 s - flow_out st2 s"
        and cl: "closed_for st3 [] {}" "dist_of st3 s \<noteq> - 1" "dist_of st3 t = - 1"
        by auto
      have "frame st st3" using fr fr3 by (rule frame_trans)
      moreover have "m1 - m = flow_out st3 s - flow_out st s" using v3 o2 by simp
      ultimately show ?thesis using step E fs3 cl by simp
    qed
  qed
qed

subsection \<open>Live and dead edges of the level graph\<close>

lemma dfs_readyD:
  assumes "dfs_ready st"
  shows "wf_graph st" "length (distances st) = nat (vertices st)" "trace_ok True st"
    "cursors_ok st" "\<And>v. 0 \<le> v \<Longrightarrow> v < vertices st \<Longrightarrow> dist_of st v < vertices st"
  using assms unfolding dfs_ready_def by blast+

lemma cursors_okD:
  assumes "cursors_ok st"
  shows "length (last_arc st) = nat (vertices st)"
    "\<And>w. 0 \<le> w \<Longrightarrow> w < vertices st \<Longrightarrow> 0 \<le> last_arc st ! nat w"
  using assms unfolding cursors_ok_def by blast+

text \<open>A vertex other than the sink whose edges are all dead is dead.\<close>

lemma all_dead_not_alive:
  assumes wf: "wf_graph st" and u: "0 \<le> u" "u < vertices st" "u \<noteq> t"
    and dead: "dead_before st t u (int (length (adjacency_list st ! nat u)))"
  shows "\<not> alive (edge_list st) (distances st) t u"
proof
  assume "alive (edge_list st) (distances st) t u"
  then show False
  proof (cases rule: alive.cases)
    case alive_sink
    with u show False by simp
  next
    case (alive_edge i)
    from alive_edge(2) have r: "0 \<le> i" "i < int (length (edge_list st))"
      by (simp_all add: level_edge_def)
    with alive_edge(1) wf_graphD(6)[OF wf u(1,2)] have "i \<in> set (adjacency_list st ! nat u)"
      by simp
    then obtain k where k: "k < length (adjacency_list st ! nat u)"
      "adjacency_list st ! nat u ! k = i"
      by (auto simp: in_set_conv_nth)
    with dead have "dead_edge st t i"
      unfolding dead_before_def by (auto dest!: spec[of _ "int k"])
    with alive_edge(2,3) show False by (simp add: dead_edge_def)
  qed
qed

lemma dead_before_cong:
  assumes "edge_list st1 = edge_list st" "distances st1 = distances st"
    "adjacency_list st1 = adjacency_list st"
  shows "dead_before st1 t u k = dead_before st t u k"
  using assms by (simp add: dead_before_def dead_edge_def)

lemma dead_before_Suc:
  assumes "dead_before st t u k" "dead_edge st t (adjacency_list st ! nat u ! nat k)" "0 \<le> k"
  shows "dead_before st t u (k + 1)"
  unfolding dead_before_def
proof (intro allI impI)
  fix j assume j: "0 \<le> j \<and> j < k + 1 \<and> j < int (length (adjacency_list st ! nat u))"
  show "dead_edge st t (adjacency_list st ! nat u ! nat j)"
  proof (cases "j = k")
    case True with assms(2) show ?thesis by simp
  next
    case False
    with j assms(1) show ?thesis by (simp add: dead_before_def)
  qed
qed

lemma skipped_dead_set:
  assumes sd: "skipped_dead st t" and db: "dead_before st t u k"
    and len: "length (last_arc st) = nat (vertices st)" and u: "0 \<le> u" "u < vertices st"
  shows "skipped_dead (st\<lparr>last_arc := (last_arc st)[nat u := k]\<rparr>) t"
  unfolding skipped_dead_def
proof (intro allI impI)
  fix w
  let ?st1 = "st\<lparr>last_arc := (last_arc st)[nat u := k]\<rparr>"
  assume w: "0 \<le> w \<and> w < vertices ?st1 \<and> w \<noteq> t"
  have c: "dead_before ?st1 t w x = dead_before st t w x" for x
    by (rule dead_before_cong) simp_all
  show "dead_before ?st1 t w (last_arc ?st1 ! nat w)"
  proof (cases "w = u")
    case True
    with u len db show ?thesis unfolding c by simp
  next
    case False
    with w u have "nat u \<noteq> nat w" by (simp add: eq_nat_nat_iff)
    with w sd show ?thesis unfolding c by (simp add: skipped_dead_def)
  qed
qed

lemma cursors_ok_set:
  assumes "cursors_ok st" "0 \<le> k"
  shows "cursors_ok (st\<lparr>last_arc := (last_arc st)[nat u := k]\<rparr>)"
proof -
  have "0 \<le> (last_arc st)[nat u := k] ! nat w" if "0 \<le> w" "w < vertices st" for w
    using that assms by (cases "nat u = nat w") (simp_all add: cursors_ok_def nth_list_update)
  with assms show ?thesis by (simp add: cursors_ok_def)
qed

lemma dfs_ready_set:
  assumes "dfs_ready st" "0 \<le> k"
  shows "dfs_ready (st\<lparr>last_arc := (last_arc st)[nat u := k]\<rparr>)"
  using assms cursors_ok_set[of st k u] by (simp add: dfs_ready_def)

lemma dfs_post_ready:
  assumes r: "dfs_ready st" and post: "dfs_post True st u t res" and c: "cursors_ok (snd res)"
    and ok: "fst res = Inr p"
  shows "dfs_ready (snd res)"
proof -
  from post have fr: "frame st (snd res)" and d: "distances (snd res) = distances st"
    by (simp_all add: dfs_post_def)
  from fr have V: "vertices (snd res) = vertices st" by (simp add: frame_def)
  have wf: "wf_graph (snd res)" using dfs_readyD(1)[OF r] fr by (rule wf_graph_shape)
  have tr: "trace_ok True (snd res)"
  proof (cases "p = 0 \<or> u = t")
    case True
    with post ok have "edge_list (snd res) = edge_list st" "trace (snd res) = trace st"
      by (simp_all add: dfs_post_def)
    with dfs_readyD(3)[OF r] show ?thesis by (simp add: trace_ok_def)
  next
    case False
    with post ok show ?thesis by (simp add: dfs_post_def)
  qed
  from wf tr c d V dfs_readyD(2,5)[OF r] show ?thesis
    by (simp add: dfs_ready_def dist_of_def)
qed

lemma dfs_live_step:
  assumes "dfs_live st1 u t pre1 pos res"
    and "edge_list st1 = edge_list st" "distances st1 = distances st"
    and "skipped_dead st t \<and> pre \<Longrightarrow> skipped_dead st1 t \<and> pre1"
  shows "dfs_live st u t pre pos res"
  using assms unfolding dfs_live_def by auto

lemma dead_before_mono:
  assumes "dead_before st t u k" "int (length (adjacency_list st ! nat u)) \<le> k"
  shows "dead_before st t u k'"
  using assms unfolding dead_before_def by auto

lemma not_level_dead:
  "\<not> level_edge (edge_list st) (distances st) i \<Longrightarrow> dead_edge st t i"
  by (simp add: dead_edge_def)

lemma py_min_positive:
  assumes "positive f" "0 \<le> r"
  shows "0 \<le> py_min f r" "py_min f r \<le> 0 \<Longrightarrow> r \<le> 0"
  using assms by (cases f; simp add: positive_def)+

lemma DFS_for_live:
  assumes fin: "\<And>v f st. dfs_ready st \<Longrightarrow> 0 \<le> v \<Longrightarrow> v < vertices st \<Longrightarrow>
      vertices st \<le> int n + dist_of st v \<Longrightarrow> 0 \<le> f \<Longrightarrow>
      dfs_live st v t True (0 < f) (DFS_fin n v t f st)"
    and r: "dfs_ready st" and u: "0 \<le> u" "u < vertices st" and ut: "u \<noteq> t"
    and fuel: "vertices st \<le> int n + dist_of st u + 1" and f: "positive f"
    and "is": "is = [k..int (length (adjacency_list st ! nat u)) - 1]" and k: "0 \<le> k"
  shows "dfs_live st u t (dead_before st t u k) True (DFS_for n u t f is st)"
  using r u fuel "is" k
proof (induction "is" arbitrary: st k)
  case Nil
  note r = Nil.prems(1) and u = Nil.prems(2,3)
  from Nil.prems(5) have "int (length (adjacency_list st ! nat u)) \<le> k"
    by (cases "k \<le> int (length (adjacency_list st ! nat u)) - 1") (simp_all add: upto_rec1)
  then have "\<not> alive (edge_list st) (distances st) t u" if "dead_before st t u k"
    using all_dead_not_alive[OF dfs_readyD(1)[OF r] u ut] dead_before_mono[OF that] by blast
  with dfs_readyD(4)[OF r] show ?case by (simp add: dfs_live_def)
next
  case (Cons i rest)
  note r = Cons.prems(1) and u = Cons.prems(2,3) and fuel = Cons.prems(4) and k = Cons.prems(6)
  note wf = dfs_readyD(1)[OF r] and len = dfs_readyD(2)[OF r] and ok = dfs_readyD(3)[OF r]
    and cur = dfs_readyD(4)[OF r]
  define adj where "adj = adjacency_list st ! nat u"
  from Cons.prems(5) have kl: "k \<le> int (length adj) - 1"
    unfolding adj_def by (cases "k \<le> int (length (adjacency_list st ! nat u)) - 1") simp_all
  with Cons.prems(5) have ik: "i = k" and rest: "rest = [k + 1..int (length adj) - 1]"
    by (simp_all add: upto_rec1 adj_def)
  define la where "la = (last_arc st)[nat u := k]"
  define st1 where "st1 = st\<lparr>last_arc := la\<rparr>"
  have ps: "py_set (last_arc st) u i = Some la"
    using u cursors_okD(1)[OF cur] by (simp add: py_set_in la_def ik)
  have r1: "dfs_ready st1" unfolding st1_def la_def using r k by (rule dfs_ready_set)
  have same1: "edge_list st1 = edge_list st" "distances st1 = distances st"
    "adjacency_list st1 = adjacency_list st" "vertices st1 = vertices st"
    by (simp_all add: st1_def)
  have d1: "dist_of st1 w = dist_of st w" for w by (simp add: st1_def)
  have ga: "py_get (adjacency_list st) u = Some adj"
    using u wf_graphD(2)[OF wf] by (simp add: py_get_in adj_def)
  define idx where "idx = adj ! nat k"
  have gi: "py_get adj i = Some idx" using k kl by (simp add: py_get_in idx_def ik)
  then have "idx \<in> set (adjacency_list st ! nat u)" unfolding adj_def by (rule py_get_mem)
  with wf_graphD(6)[OF wf u] have i: "0 \<le> idx" "idx < int (length (edge_list st))"
    and tl: "hd_of (edge_list st) (idx XOR 1) = u" by simp_all
  define el where "el = edge_list st"
  define v where "v = hd_of el idx"
  have v: "0 \<le> v" "v < vertices st" using wf_graphD(4)[OF wf i] by (simp_all add: v_def el_def)
  have ge: "py_get (edge_list st) idx = Some (v, cap_of el idx, flow_of el idx)"
    using i by (simp add: py_get_in edge_triple el_def v_def)
  have gv: "py_get (distances st) v = Some (dist_of st v)"
    using v len by (simp add: py_get_in dist_of_def)
  have gu: "py_get (distances st) u = Some (dist_of st u)"
    using u len by (simp add: py_get_in dist_of_def)
  define f1 where "f1 = py_min f (resid el idx)"
  note step = DFS_for_step[OF ps ga gi ge gv gu, of n t f rest,
      folded st1_def resid_def f1_def]
  have sk1: "skipped_dead st1 t" if "skipped_dead st t" "dead_before st t u k"
    unfolding st1_def la_def using that cursors_okD(1)[OF cur] u by (rule skipped_dead_set)
  have rest1: "rest = [k + 1..int (length (adjacency_list st1 ! nat u)) - 1]"
    using rest by (simp add: adj_def same1)
  show ?case
  proof (cases "dist_of st v = dist_of st u + 1")
    case False
    with step have e: "DFS_for n u t f (i # rest) st = DFS_for n u t f rest st1" by simp
    have "\<not> level_edge (edge_list st) (distances st) idx"
      using False tl by (simp add: level_edge_def v_def el_def dist_of_def)
    then have de: "dead_edge st t (adjacency_list st ! nat u ! nat k)"
      unfolding idx_def[unfolded adj_def, symmetric] by (rule not_level_dead)
    have "dfs_live st1 u t (dead_before st1 t u (k + 1)) True (DFS_for n u t f rest st1)"
      using r1 u fuel rest1 k by (intro Cons.IH) (simp_all add: same1 d1)
    then show ?thesis unfolding e using same1(1,2)
    proof (rule dfs_live_step)
      assume a: "skipped_dead st t \<and> dead_before st t u k"
      then have "dead_before st t u (k + 1)" using de k by (intro dead_before_Suc) simp_all
      then have "dead_before st1 t u (k + 1)"
        using dead_before_cong[OF same1(1,2,3)] by simp
      with a sk1 show "skipped_dead st1 t \<and> dead_before st1 t u (k + 1)" by simp
    qed
  next
    case lev: True
    from ok have "cap_ok el" by (simp add: trace_ok_def edges_ok_def el_def)
    with i have r0: "0 \<le> resid el idx" by (simp add: cap_ok_def resid_def el_def)
    note f1 = py_min_positive[OF f r0, folded f1_def]
    have fuel1: "vertices st1 \<le> int n + dist_of st1 v" using fuel lev by (simp add: same1 d1)
    obtain r2 st2 where rec: "DFS_fin n v t f1 st1 = (r2, st2)" by force
    from fin[OF r1 _ _ fuel1 f1(1)] v rec
    have live2: "dfs_live st1 v t True (0 < f1) (r2, st2)" by (simp add: same1)
    then obtain p where r2: "r2 = Inr p" and cur2: "cursors_ok st2" by (auto simp: dfs_live_def)
    have "dfs_post True st1 v t (DFS_fin n v t f1 st1)"
      using dfs_readyD(1,2,3)[OF r1] v f1(1) by (intro conjunct1[OF DFS_fin_safe]) (simp_all add: same1)
    with rec have post2: "dfs_post True st1 v t (r2, st2)" by simp
    from post2 have fr2: "frame st1 st2" and k2: "distances st2 = distances st1"
      by (simp_all add: dfs_post_def)
    have r2': "dfs_ready st2" using dfs_post_ready[OF r1 post2] cur2 r2 by simp
    from fr2 have same2: "adjacency_list st2 = adjacency_list st" "vertices st2 = vertices st"
      by (simp_all add: frame_def same1)
    have d2: "dist_of st2 w = dist_of st w" for w using k2 by (simp add: dist_of_def same1)
    show ?thesis
    proof (cases "p = 0")
      case True
      with step lev rec r2 have e: "DFS_for n u t f (i # rest) st = DFS_for n u t f rest st2"
        by simp
      from post2 r2 True have el2: "edge_list st2 = edge_list st"
        by (simp add: dfs_post_def same1)
      have ds2: "distances st2 = distances st" using k2 by (simp add: same1)
      have "dfs_live st2 u t (dead_before st2 t u (k + 1)) True (DFS_for n u t f rest st2)"
        using r2' u fuel rest k by (intro Cons.IH) (simp_all add: same2 d2 adj_def)
      then show ?thesis unfolding e using el2 ds2
      proof (rule dfs_live_step)
        assume a: "skipped_dead st t \<and> dead_before st t u k"
        with sk1 have "skipped_dead st1 t" by simp
        with live2 True r2 have s2: "skipped_dead st2 t"
          and na: "0 < f1 \<Longrightarrow> \<not> alive (edge_list st1) (distances st1) t v"
          by (simp_all add: dfs_live_def)
        have "dead_edge st t idx"
        proof (cases "0 < f1")
          case True
          with na show ?thesis by (simp add: dead_edge_def same1 v_def el_def)
        next
          case False
          with f1(2) have "resid el idx \<le> 0" by simp
          then show ?thesis by (intro not_level_dead) (simp add: level_edge_def el_def)
        qed
        then have "dead_edge st t (adjacency_list st ! nat u ! nat k)"
          by (simp add: idx_def adj_def)
        with a have "dead_before st t u (k + 1)" using k by (intro dead_before_Suc) simp_all
        then have "dead_before st2 t u (k + 1)"
          using dead_before_cong[OF el2 ds2 same2(1)] by simp
        with s2 show "skipped_dead st2 t \<and> dead_before st2 t u (k + 1)" by simp
      qed
    next
      case False
      note wf2 = dfs_readyD(1)[OF r2']
      have i2: "0 \<le> idx" "idx < int (length (edge_list st2))"
        using i frame_length[OF fr2] by (simp_all add: same1)
      from push_flow_ok[OF wf2 i2, of "flow_of el idx" p] obtain st3 where
        push: "push_flow idx (flow_of el idx) p st2 = (Inr (), st3)" and fr3: "frame st2 st3"
        and la3: "last_arc st3 = last_arc st2"
        by blast
      have e: "DFS_for n u t f (i # rest) st = (Inr p, st3)"
        using step lev rec r2 False push by simp
      from fr3 have "vertices st3 = vertices st2" by (simp add: frame_def)
      with cur2 la3 have "cursors_ok st3" by (simp add: cursors_ok_def)
      with False show ?thesis unfolding e by (simp add: dfs_live_def)
    qed
  qed
qed

lemma DFS_fin_live:
  assumes "dfs_ready st" "0 \<le> u" "u < vertices st" "vertices st \<le> int n + dist_of st u" "0 \<le> f"
  shows "dfs_live st u t True (0 < f) (DFS_fin n u t f st)"
  using assms
proof (induction n arbitrary: u f st)
  case 0
  from dfs_readyD(5)[OF 0(1,2,3)] 0(4) show ?case by simp
next
  case (Suc n)
  note r = Suc.prems(1) and u = Suc.prems(2,3) and fuel = Suc.prems(4) and f = Suc.prems(5)
  show ?case
  proof (cases "u = t \<or> f = 0")
    case True
    then have "DFS_fin (Suc n) u t f st = (Inr f, st)" by (rule DFS_fin_base)
    with dfs_readyD(4)[OF r] show ?thesis by (simp add: dfs_live_def)
  next
    case False
    note cur = dfs_readyD(4)[OF r] and wf = dfs_readyD(1)[OF r]
    define l where "l = last_arc st ! nat u"
    have gl: "py_get (last_arc st) u = Some l"
      using u cursors_okD(1)[OF cur] by (simp add: py_get_in l_def)
    have ga: "py_get (adjacency_list st) u = Some (adjacency_list st ! nat u)"
      using u wf_graphD(2)[OF wf] by (simp add: py_get_in)
    have l0: "0 \<le> l" using cursors_okD(2)[OF cur u] by (simp add: l_def)
    have e: "DFS_fin (Suc n) u t f st =
        DFS_for n u t (Fin f) [l..int (length (adjacency_list st ! nat u)) - 1] st"
      using False gl ga by (rule DFS_fin_step)
    have "dfs_live st u t (dead_before st t u l) True
        (DFS_for n u t (Fin f) [l..int (length (adjacency_list st ! nat u)) - 1] st)"
    proof (rule DFS_for_live[OF _ r u _ _ _ refl l0])
      show "u \<noteq> t" using False by simp
      show "vertices st \<le> int n + dist_of st u + 1" using fuel by simp
      show "positive (Fin f)" using False f by (simp add: positive_def)
    qed (rule Suc.IH)
    then have "dfs_live st u t True True
        (DFS_for n u t (Fin f) [l..int (length (adjacency_list st ! nat u)) - 1] st)"
    proof (rule dfs_live_step[OF _ refl refl])
      assume "skipped_dead st t \<and> True"
      with u False show "skipped_dead st t \<and> dead_before st t u l"
        by (simp add: skipped_dead_def l_def)
    qed
    then show ?thesis unfolding e dfs_live_def by blast
  qed
qed

lemma fin_result_inj: "fin_result a = fin_result b \<Longrightarrow> a = b"
  by (cases a; cases b; cases "fst a"; cases "fst b") auto

text \<open>With a frame for every level, the top call of \<open>DFS\<close> raises nothing, and it
  returns zero only when no path of positive residual capacity leads down the levels
  from the vertex to the sink.\<close>

lemma DFS_live:
  assumes r: "dfs_ready st" and u: "0 \<le> u" "u < vertices st" and ut: "u \<noteq> t"
    and fuel: "vertices st \<le> int lim + dist_of st u"
  shows "\<exists>res. DFS lim u t Infty st = fin_result res \<and> dfs_post True st u t res \<and>
      dfs_live st u t True True res"
proof (cases lim)
  case 0
  from dfs_readyD(5)[OF r u] fuel 0 show ?thesis by simp
next
  case (Suc n)
  note cur = dfs_readyD(4)[OF r] and wf = dfs_readyD(1)[OF r]
  define l where "l = last_arc st ! nat u"
  have gl: "py_get (last_arc st) u = Some l"
    using u cursors_okD(1)[OF cur] by (simp add: py_get_in l_def)
  have ga: "py_get (adjacency_list st) u = Some (adjacency_list st ! nat u)"
    using u wf_graphD(2)[OF wf] by (simp add: py_get_in)
  have l0: "0 \<le> l" using cursors_okD(2)[OF cur u] by (simp add: l_def)
  define res where "res = DFS_for n u t Infty [l..int (length (adjacency_list st ! nat u)) - 1] st"
  have e: "DFS lim u t Infty st = fin_result res"
    using ut gl ga by (simp add: Suc res_def)
  from DFS_safe[OF wf dfs_readyD(2,3)[OF r] u ut, of lim] obtain res' where
    "DFS lim u t Infty st = fin_result res'" and post: "dfs_post True st u t res'" by blast
  with e have "res' = res" by (simp add: fin_result_inj)
  with post have post: "dfs_post True st u t res" by simp
  have "dfs_live st u t (dead_before st t u l) True res"
    unfolding res_def
  proof (rule DFS_for_live[OF _ r u ut _ _ refl l0])
    show "vertices st \<le> int n + dist_of st u + 1" using fuel Suc by simp
    show "positive Infty" by (simp add: positive_def)
  qed (rule DFS_fin_live)
  then have "dfs_live st u t True True res"
  proof (rule dfs_live_step[OF _ refl refl])
    assume "skipped_dead st t \<and> True"
    with u ut show "skipped_dead st t \<and> dead_before st t u l"
      by (simp add: skipped_dead_def l_def)
  qed
  with e post show ?thesis by blast
qed

subsection \<open>The blocking-flow strategy returns\<close>

text \<open>When the level builder has reached the sink, the parent pointers lead from the
  sink down to the source along edges of positive residual capacity, one level each.\<close>

lemma tree_alive_source:
  assumes tree: "bfs_tree s st"
    and v: "0 \<le> v" "v < vertices st" "dist_of st v \<noteq> - 1"
    and a: "alive (edge_list st) (distances st) t v"
  shows "alive (edge_list st) (distances st) t s"
  using v a
proof (induction "nat (dist_of st v)" arbitrary: v rule: less_induct)
  case less
  show ?case
  proof (cases "v = s")
    case True
    with less.prems show ?thesis by simp
  next
    case False
    from bfs_treeD(7)[OF tree less.prems(1,2) False less.prems(3)]
    obtain u idx where pt: "points st ! nat v = (u, idx)"
      and u: "0 \<le> u" "u < vertices st"
      and idx: "0 \<le> idx" "idx < int (length (edge_list st))"
      and hd: "hd_of (edge_list st) idx = v" and tl: "hd_of (edge_list st) (idx XOR 1) = u"
      and re: "0 < resid (edge_list st) idx" and du: "dist_of st u \<noteq> - 1"
      and dv: "dist_of st v = dist_of st u + 1"
      unfolding parent_ok_def by (cases "points st ! nat v") auto
    have "level_edge (edge_list st) (distances st) idx"
      using idx hd tl re dv by (simp add: level_edge_def dist_of_def)
    from alive_edge[OF this, of t] less.prems(4) hd tl
    have au: "alive (edge_list st) (distances st) t u" by simp
    from bfs_treeD(6)[OF tree u] du have "0 \<le> dist_of st u" by simp
    with dv have "nat (dist_of st u) < nat (dist_of st v)" by simp
    from less.hyps[OF this u du au] show ?thesis .
  qed
qed

lemma dinic_phase_total:
  assumes fs: "flow_state True s t st" and r: "dfs_ready st"
    and s: "0 \<le> s" "s < vertices st" and st: "s \<noteq> t"
    and lim: "vertices st \<le> int lim + dist_of st s" and p: "0 \<le> p"
  shows "\<exists>m1 st1. dinic_phase lim s t (Fin p) (Fin m) st = Some (Inr (Fin m1), st1) \<and>
      flow_state True s t st1 \<and> frame st st1 \<and>
      m1 - (m + p) = flow_out st1 s - flow_out st s \<and> flow_out st s \<le> flow_out st1 s"
  using fs r s lim p
proof (induction "nat (out_capacity st s - flow_out st s)" arbitrary: m p st rule: less_induct)
  case less
  note fs = less.prems(1) and r = less.prems(2) and s = less.prems(3,4)
    and lim = less.prems(5) and p = less.prems(6)
  show ?case
  proof (cases "p = 0")
    case True
    then have "dinic_phase lim s t (Fin p) (Fin m) st = Some (Inr (Fin m), st)"
      by (subst dinic_phase.simps) simp
    with fs True show ?thesis by (simp add: frame_refl)
  next
    case False
    from DFS_live[OF r s st lim] obtain res q where
      D: "DFS lim s t Infty st = fin_result res" and post: "dfs_post True st s t res"
      and q: "fst res = Inr q" and cur1: "cursors_ok (snd res)"
      by (auto simp: dfs_live_def)
    define st1 where "st1 = snd res"
    from q have res: "res = (Inr q, st1)" by (cases res) (simp add: st1_def)
    from D res have D: "DFS lim s t Infty st = (Inr (Fin q), st1)" by simp
    from dfs_post_flow_state[OF fs post st]
    have fs1: "flow_state True s t st1" and V1: "vertices st1 = vertices st"
      and ds1: "distances st1 = distances st" by (simp_all add: st1_def)
    have r1: "dfs_ready st1" using dfs_post_ready[OF r post cur1 q] by (simp add: st1_def)
    from post have fr1: "frame st st1" by (simp add: dfs_post_def st1_def)
    from post res have q0: "0 \<le> q" by (simp add: dfs_post_def)
    have step: "dinic_phase lim s t (Fin p) (Fin m) st =
        dinic_phase lim s t (Fin q) (Fin (m + p)) st1"
      using False D by (subst dinic_phase.simps) simp
    have d1: "dist_of st1 s = dist_of st s" using ds1 by (simp add: dist_of_def)
    show ?thesis
    proof (cases "q = 0")
      case True
      with post res have "edge_list st1 = edge_list st" by (simp add: dfs_post_def)
      moreover from fr1 have "adjacency_list st1 = adjacency_list st" by (simp add: frame_def)
      ultimately have o: "flow_out st1 s = flow_out st s" by (rule flow_out_cong)
      from True have "dinic_phase lim s t (Fin q) (Fin (m + p)) st1 =
          Some (Inr (Fin (m + p)), st1)"
        by (subst dinic_phase.simps) simp
      with step fs1 fr1 o show ?thesis by simp
    next
      case q: False
      with post res st have "augmented st st1 s t q" by (simp add: dfs_post_def)
      with s st have o: "flow_out st1 s = flow_out st s + q" by (simp add: augmented_def)
      have wf: "wf_graph st" using fs by (simp add: flow_state_def)
      have c1: "out_capacity st1 s = out_capacity st s"
        using wf fr1 s by (rule frame_out_capacity)
      have le1: "flow_out st1 s \<le> out_capacity st1 s"
        using fs1 s V1 by (intro flow_state_capacity[of s t]) simp_all
      have less: "nat (out_capacity st1 s - flow_out st1 s) < nat (out_capacity st s - flow_out st s)"
        using c1 le1 o q q0 by simp
      from less.hyps[OF less fs1 r1 _ _ _ q0, of "m + p"] s lim V1 d1
      obtain m1 st2 where E: "dinic_phase lim s t (Fin q) (Fin (m + p)) st1 = Some (Inr (Fin m1), st2)"
        and fs2: "flow_state True s t st2" and fr2: "frame st1 st2"
        and v2: "m1 - (m + p + q) = flow_out st2 s - flow_out st1 s"
        and mono: "flow_out st1 s \<le> flow_out st2 s"
        by auto
      have "frame st st2" using fr1 fr2 by (rule frame_trans)
      moreover have "m1 - (m + p) = flow_out st2 s - flow_out st s" using v2 o by simp
      moreover have "flow_out st s \<le> flow_out st2 s" using mono o q0 by simp
      ultimately show ?thesis using step E fs2 by simp
    qed
  qed
qed

lemma fresh_cursors_ready:
  assumes wf: "wf_graph st" and tree: "bfs_tree s st" and ok: "trace_ok True st"
  shows "dfs_ready (st\<lparr>last_arc := replicate (nat (vertices st)) 0\<rparr>)"
proof -
  let ?st = "st\<lparr>last_arc := replicate (nat (vertices st)) 0\<rparr>"
  have "cursors_ok ?st" by (simp add: cursors_ok_def)
  moreover have "dist_of ?st v < vertices ?st" if "0 \<le> v" "v < vertices ?st" for v
    using bfs_tree_bound[OF tree, of v] that by simp
  ultimately show ?thesis
    using wf ok bfs_treeD(1)[OF tree] by (simp add: dfs_ready_def)
qed

lemma dead_before_0: "dead_before st t w 0"
  unfolding dead_before_def by linarith

lemma fresh_cursors_skipped:
  "skipped_dead (st\<lparr>last_arc := replicate (nat (vertices st)) 0\<rparr>) t"
  unfolding skipped_dead_def
proof (intro allI impI)
  fix w
  let ?st = "st\<lparr>last_arc := replicate (nat (vertices st)) 0\<rparr>"
  assume "0 \<le> w \<and> w < vertices ?st \<and> w \<noteq> t"
  then have "nat w < nat (vertices st)" by simp
  then have "last_arc ?st ! nat w = 0" by simp
  then show "dead_before ?st t w (last_arc ?st ! nat w)"
    by (simp only: dead_before_0)
qed

text \<open>The loop of \<open>dinic\<close> returns, with the flow out of the source added to the count
  and a level structure that does not reach the sink.\<close>

lemma dinic_while_total:
  assumes fs: "flow_state True s t st" and s: "0 \<le> s" "s < vertices st"
    and t: "0 \<le> t" "t < vertices st" and st: "s \<noteq> t" and lim: "vertices st \<le> int lim"
  shows "\<exists>m1 st1. dinic_while lim s t (Fin m) st = Some (Inr (Fin m1), st1) \<and>
      flow_state True s t st1 \<and> frame st st1 \<and>
      m1 - m = flow_out st1 s - flow_out st s \<and>
      closed_for st1 [] {} \<and> dist_of st1 s \<noteq> - 1 \<and> dist_of st1 t = - 1"
  using fs s t lim
proof (induction "nat (out_capacity st s - flow_out st s)" arbitrary: m st rule: less_induct)
  case less
  note fs = less.prems(1) and s = less.prems(2,3) and t = less.prems(4,5) and lim = less.prems(6)
  from fs have wf: "wf_graph st" by (simp add: flow_state_def)
  from BFS_total[OF wf s t] obtain b st1 where
    B: "BFS s t st = Some (Inr b, st1)" and wf1: "wf_graph st1" and tree: "bfs_tree s st1"
    and fr1: "frame st st1" and el1: "edge_list st1 = edge_list st"
    and tr1: "trace st1 = trace st" and bt: "b \<longleftrightarrow> dist_of st1 t \<noteq> - 1"
    and cl: "\<not> b \<longrightarrow> closed_for st1 [] {}"
    by blast
  from fr1 have V1: "vertices st1 = vertices st" and a1: "adjacency_list st1 = adjacency_list st"
    by (simp_all add: frame_def)
  have fs1: "flow_state True s t st1" using fs fr1 el1 tr1 by (rule flow_state_cong)
  have o1: "flow_out st1 s = flow_out st s" using el1 a1 by (rule flow_out_cong)
  have d0: "dist_of st1 s = 0" by (rule bfs_treeD(5)[OF tree])
  show ?case
  proof (cases b)
    case False
    with B have "dinic_while lim s t (Fin m) st = Some (Inr (Fin m), st1)"
      by (subst dinic_while.simps) simp
    with False bt cl fs1 fr1 o1 d0 show ?thesis by simp
  next
    case True
    define st2 where "st2 = st1\<lparr>last_arc := replicate (nat (vertices st1)) 0\<rparr>"
    have fs2: "flow_state True s t st2"
      using fs1 by (rule flow_state_cong) (simp_all add: st2_def)
    from fs1 have ok1: "trace_ok True st1" by (simp add: flow_state_def)
    have r2: "dfs_ready st2" unfolding st2_def using wf1 tree ok1 by (rule fresh_cursors_ready)
    have sk2: "skipped_dead st2 t" unfolding st2_def by (rule fresh_cursors_skipped)
    have same2: "vertices st2 = vertices st" "edge_list st2 = edge_list st1"
      "distances st2 = distances st1" "adjacency_list st2 = adjacency_list st"
      by (simp_all add: st2_def V1 a1)
    have d2: "dist_of st2 w = dist_of st1 w" for w by (simp add: st2_def)
    have o2: "flow_out st2 s = flow_out st s"
      using o1 flow_out_cong[of st2 st1 s] by (simp add: st2_def)
    have fr2: "frame st st2" using fr1 by (simp add: st2_def)
    have "alive (edge_list st1) (distances st1) t t" by (rule alive_sink)
    with tree t True bt V1 have al: "alive (edge_list st2) (distances st2) t s"
      unfolding same2 by (intro tree_alive_source[of s st1 t t]) simp_all
    have fuel: "vertices st2 \<le> int lim + dist_of st2 s" using lim d0 by (simp add: same2 d2)
    from DFS_live[OF r2 _ _ st fuel] s obtain res where
      D: "DFS lim s t Infty st2 = fin_result res" and post: "dfs_post True st2 s t res"
      and dl: "dfs_live st2 s t True True res"
      by (auto simp: same2)
    from dl obtain q where q: "fst res = Inr q" and cur3: "cursors_ok (snd res)"
      and live: "q = 0 \<and> skipped_dead st2 t \<longrightarrow> \<not> alive (edge_list st2) (distances st2) t s"
      unfolding dfs_live_def by blast
    define st3 where "st3 = snd res"
    from q have res: "res = (Inr q, st3)" by (cases res) (simp add: st3_def)
    from D res have D: "DFS lim s t Infty st2 = (Inr (Fin q), st3)" by simp
    from live sk2 al have q0: "q \<noteq> 0" by blast
    from post res have "0 \<le> q" by (simp add: dfs_post_def)
    with q0 have qp: "0 < q" by simp
    from dfs_post_flow_state[OF fs2 post st]
    have fs3: "flow_state True s t st3" and V3: "vertices st3 = vertices st"
      and ds3: "distances st3 = distances st2" by (simp_all add: st3_def same2)
    have r3: "dfs_ready st3" using dfs_post_ready[OF r2 post cur3 q] by (simp add: st3_def)
    from post have fr3: "frame st2 st3" by (simp add: dfs_post_def st3_def)
    from post res st q0 have "augmented st2 st3 s t q" by (simp add: dfs_post_def)
    with s st have o3: "flow_out st3 s = flow_out st s + q"
      by (simp add: augmented_def same2 o2)
    have d3: "dist_of st3 s = 0" using ds3 d0 by (simp add: dist_of_def same2)
    have fuel3: "vertices st3 \<le> int lim + dist_of st3 s" using lim d3 V3 by simp
    from dinic_phase_total[OF fs3 r3 _ _ st fuel3, of q m] s V3 qp
    obtain m1 st4 where P: "dinic_phase lim s t (Fin q) (Fin m) st3 = Some (Inr (Fin m1), st4)"
      and fs4: "flow_state True s t st4" and fr4: "frame st3 st4"
      and v4: "m1 - (m + q) = flow_out st4 s - flow_out st3 s"
      and mono: "flow_out st3 s \<le> flow_out st4 s"
      by auto
    have step: "dinic_while lim s t (Fin m) st = dinic_while lim s t (Fin m1) st4"
      using B True D P by (subst dinic_while.simps) (simp add: Let_def st2_def)
    have fr: "frame st st4" using frame_trans[OF frame_trans[OF fr2 fr3] fr4] .
    then have V4: "vertices st4 = vertices st" by (simp add: frame_def)
    have c4: "out_capacity st4 s = out_capacity st s"
      using wf fr s by (rule frame_out_capacity)
    have le4: "flow_out st4 s \<le> out_capacity st4 s"
      using fs4 s V4 by (intro flow_state_capacity[of s t]) simp_all
    have less: "nat (out_capacity st4 s - flow_out st4 s) < nat (out_capacity st s - flow_out st s)"
      using c4 le4 o3 mono qp by simp
    from less.hyps[OF less fs4, of m1] s t lim V4
    obtain m2 st5 where E: "dinic_while lim s t (Fin m1) st4 = Some (Inr (Fin m2), st5)"
      and fs5: "flow_state True s t st5" and fr5: "frame st4 st5"
      and v5: "m2 - m1 = flow_out st5 s - flow_out st4 s"
      and cl5: "closed_for st5 [] {}" "dist_of st5 s \<noteq> - 1" "dist_of st5 t = - 1"
      by auto
    have "frame st st5" using fr fr5 by (rule frame_trans)
    moreover have "m2 - m = flow_out st5 s - flow_out st s" using v5 v4 o3 by simp
    ultimately show ?thesis using step E fs5 cl5 by simp
  qed
qed

subsection \<open>Both strategies on one graph\<close>

lemma fresh_flow_out:
  assumes wf: "wf_graph st" and fr: "fresh st" and w: "0 \<le> w" "w < vertices st"
  shows "flow_out st w = 0"
proof -
  have "flow_out st w = (\<Sum>i \<in> set (adjacency_list st ! nat w). flow_of (edge_list st) i)"
    using wf w by (rule flow_out_sum)
  also have "\<dots> = (\<Sum>i \<in> set (adjacency_list st ! nat w). 0)"
    by (rule sum.cong) (use wf_graphD(6)[OF wf w] fresh_flow_zero[OF fr] in auto)
  finally show ?thesis by simp
qed

lemma run_flag_simps [simp]:
  "wf_graph (st\<lparr>has_been_run := b\<rparr>) = wf_graph st"
  "flow_out (st\<lparr>has_been_run := b\<rparr>) w = flow_out st w"
  "frame (st\<lparr>has_been_run := b\<rparr>) st1 = (vertices st1 = vertices st \<and>
     adjacency_list st1 = adjacency_list st \<and> has_been_run st1 = b \<and>
     shape (edge_list st1) = shape (edge_list st))"
  by (auto simp: wf_graph_def flow_out_def frame_def)

text \<open>Both entry points return on a graph built by edge insertion with non-negative
  capacities, for distinct source and sink and with a call frame for every vertex, and the
  value each returns is the flow out of the source in a state where a cut is saturated.\<close>

lemma run_total:
  assumes b: "build V es = (Inr (), g)" and v: "valid_edges V es" and nn: "nonneg_caps es"
    and s: "0 \<le> s" "s < V" and t: "0 \<le> t" "t < V" and st: "s \<noteq> t" and lim: "V \<le> int lim"
  shows "\<exists>m g1 g2. edmonds_karp lim s t g = Some (Inr (Fin m), g1) \<and>
      dinic lim s t g = Some (Inr (Fin m), g2) \<and> m = flow_out g1 s \<and> m = flow_out g2 s \<and>
      flow_state True s t g1 \<and> flow_state True s t g2"
proof -
  from s have V0: "0 \<le> V" by simp
  from build_wf[OF V0 v b] have g: "wf_graph g" "vertices g = V" "fresh g"
    "nonneg_caps es \<longrightarrow> caps_nonneg (edge_list g)" by simp_all
  from nn g(4) have "True \<longrightarrow> caps_nonneg (edge_list g)" by simp
  with g have fs: "flow_state True s t g" by (intro fresh_flow_state)
  from g(3) have nr: "\<not> has_been_run g" by (simp add: fresh_def)
  define g0 where "g0 = g\<lparr>has_been_run := True\<rparr>"
  have fs0: "flow_state True s t g0" using fs by (simp add: g0_def)
  have V0: "vertices g0 = V" using g(2) by (simp add: g0_def)
  have wf0: "wf_graph g0" using g(1) by (simp add: g0_def)
  have o0: "flow_out g0 s = 0" using fresh_flow_out[OF g(1,3), of s] s g(2) by (simp add: g0_def)
  have ek: "edmonds_karp lim s t g = edmonds_karp_while lim s t (Fin 0) g0"
    using nr by (simp add: edmonds_karp_def assert_has_not_already_been_run_def g0_def)
  have di: "dinic lim s t g = dinic_while lim s t (Fin 0) g0"
    using nr by (simp add: dinic_def assert_has_not_already_been_run_def g0_def)
  from edmonds_karp_while_total[OF fs0 _ _ _ _ st, of lim 0] s t lim V0
  obtain m1 g1 where E: "edmonds_karp_while lim s t (Fin 0) g0 = Some (Inr (Fin m1), g1)"
    and fs1: "flow_state True s t g1" and fr1: "frame g0 g1"
    and v1: "m1 - 0 = flow_out g1 s - flow_out g0 s"
    and c1: "closed_for g1 [] {}" "dist_of g1 s \<noteq> - 1" "dist_of g1 t = - 1"
    by auto
  from dinic_while_total[OF fs0 _ _ _ _ st, of lim 0] s t lim V0
  obtain m2 g2 where D: "dinic_while lim s t (Fin 0) g0 = Some (Inr (Fin m2), g2)"
    and fs2: "flow_state True s t g2" and fr2: "frame g0 g2"
    and v2: "m2 - 0 = flow_out g2 s - flow_out g0 s"
    and c2: "closed_for g2 [] {}" "dist_of g2 s \<noteq> - 1" "dist_of g2 t = - 1"
    by auto
  have "flow_out g1 s = flow_out g2 s"
    using wf0 fr1 fr2 fs1 fs2 c1(1) c2(1) _ _ c1(2) c2(2) c1(3) c2(3)
    by (rule saturating_flows_agree) (use s V0 in simp_all)
  with v1 v2 o0 have "m1 = flow_out g1 s" "m2 = flow_out g2 s" "m1 = m2" by simp_all
  with ek di E D fs1 fs2 show ?thesis by simp
qed

text \<open>With source equal to sink each round sends an unbounded amount, which is never
  zero: neither loop ends.\<close>

lemma edmonds_karp_while_same_vertex:
  assumes "edmonds_karp_while lim s t mf st = Some y"
    and "s = t" and "wf_graph st" and "0 \<le> s" "s < vertices st" and "0 < lim"
  shows False
  using assms
proof (induction rule: edmonds_karp_while_induct)
  case (step loop lim s t mf st y)
  note wf = step.prems(2) and s = step.prems(3,4)
  from BFS_total[OF wf s s] step.prems(1) obtain b st1 where
    B: "BFS s t st = Some (Inr b, st1)" and wf1: "wf_graph st1" and tree: "bfs_tree s st1"
    and fr: "frame st st1" and bt: "b \<longleftrightarrow> dist_of st1 t \<noteq> - 1"
    by auto
  from bfs_treeD(5)[OF tree] bt step.prems(1) have b by simp
  from fr have V1: "vertices st1 = vertices st" by (simp add: frame_def)
  have S: "send_one_flow lim s t Infty st1 = (Inr Infty, st1)"
    using step.prems(1,5) by (simp add: send_one_flow_same)
  from step(2) B \<open>b\<close> S have "loop lim s t (nplus mf Infty) st1 = Some y" by simp
  from step.IH[OF this step.prems(1) wf1] s V1 step.prems(5) show ?case by simp
qed

lemma dinic_phase_same_vertex:
  assumes "dinic_phase lim s t f mf st = Some y" and "s = t" and "f \<noteq> Fin 0" and "0 < lim"
  shows False
  using assms
proof (induction rule: dinic_phase_induct)
  case (step loop lim s t f mf st y)
  have D: "DFS lim s t Infty st = (Inr Infty, st)"
    using step.prems(1,3) by (simp add: DFS_same_vertex)
  from step(2) step.prems(2) D have "loop lim s t Infty (nplus mf f) st = Some y" by simp
  from step.IH[OF this step.prems(1) _ step.prems(3)] show ?case by simp
qed

lemma same_vertex_diverges:
  assumes wf: "wf_graph st" and nr: "\<not> has_been_run st"
    and s: "0 \<le> s" "s < vertices st" and lim: "0 < lim"
  shows "edmonds_karp lim s s st = None \<and> dinic lim s s st = None"
proof -
  define g0 where "g0 = st\<lparr>has_been_run := True\<rparr>"
  have wf0: "wf_graph g0" using wf by (simp add: g0_def)
  have V0: "vertices g0 = vertices st" by (simp add: g0_def)
  have ek: "edmonds_karp lim s s st = edmonds_karp_while lim s s (Fin 0) g0"
    using nr by (simp add: edmonds_karp_def assert_has_not_already_been_run_def g0_def)
  have di: "dinic lim s s st = dinic_while lim s s (Fin 0) g0"
    using nr by (simp add: dinic_def assert_has_not_already_been_run_def g0_def)
  have "edmonds_karp_while lim s s (Fin 0) g0 = None"
  proof (cases "edmonds_karp_while lim s s (Fin 0) g0")
    case (Some y)
    from edmonds_karp_while_same_vertex[OF Some refl wf0] s V0 lim show ?thesis by simp
  qed simp
  moreover have "dinic_while lim s s (Fin 0) g0 = None"
  proof -
    from BFS_total[OF wf0, of s s] s V0 obtain b st1 where
      B: "BFS s s g0 = Some (Inr b, st1)" and tree: "bfs_tree s st1"
      and bt: "b \<longleftrightarrow> dist_of st1 s \<noteq> - 1"
      by auto
    from bfs_treeD(5)[OF tree] bt have b by simp
    define st2 where "st2 = st1\<lparr>last_arc := replicate (nat (vertices st1)) 0\<rparr>"
    have D: "DFS lim s s Infty st2 = (Inr Infty, st2)" using lim by (simp add: DFS_same_vertex)
    have "dinic_phase lim s s Infty (Fin 0) st2 = None"
    proof (cases "dinic_phase lim s s Infty (Fin 0) st2")
      case (Some y)
      from dinic_phase_same_vertex[OF Some refl _ lim] show ?thesis by simp
    qed simp
    with B \<open>b\<close> D show ?thesis
      by (subst dinic_while.simps) (simp add: Let_def st2_def)
  qed
  ultimately show ?thesis using ek di by simp
qed

section \<open>Edge insertion\<close>

text \<open>C9: \<^verbatim>\<open>add_edge(u, u, capacity, directed)\<close> raises nothing and returns the
  instance as it was: no edge is appended and no adjacency list changes.\<close>

theorem add_edge_self_loop_noop:
  "add_edge u u capacity directed st = (Inr (), st)"
  by (simp add: add_edge_def)

section \<open>The documented example\<close>

text \<open>C2: on the graph with 3 vertices and the directed edges 0-1, 0-2 and 1-2 of
  capacity 3, both \<^verbatim>\<open>edmonds_karp(0, 2)\<close> and \<^verbatim>\<open>dinic(0, 2)\<close> return 6 (with
  Python's default recursion limit).\<close>

theorem example_max_flow_is_6:
  "fst (build 3 [(0, 1, 3, True), (0, 2, 3, True), (1, 2, 3, True)]) = Inr () \<and>
   map_option fst (edmonds_karp 1000 0 2 example_graph) = Some (Inr (Fin 6)) \<and>
   map_option fst (dinic 1000 0 2 example_graph) = Some (Inr (Fin 6))"
  by code_simp

section \<open>Augmenting with source equal to sink\<close>

text \<open>C8, as stated: \<^verbatim>\<open>send_one_flow(s, s)\<close> returns zero. It returns its bound, and
  the default bound is \<^verbatim>\<open>INF\<close>.\<close>

theorem send_one_flow_same_vertex_counterexample:
  "fst (send_one_flow 1000 0 0 Infty example_graph) \<noteq> Inr (Fin 0)"
  by code_simp

text \<open>C8, amended: with a call frame left, \<^verbatim>\<open>send_one_flow(s, s, f)\<close> pushes no flow
  (the instance is unchanged) and returns the bound \<open>f\<close> it was given.\<close>

theorem send_one_flow_same_vertex:
  "0 < lim \<Longrightarrow> send_one_flow lim s s f st = (Inr f, st)"
  by (cases lim; cases f) (simp_all add: send_one_flow_fin.simps)

theorem send_one_flow_same_vertex_witness:
  "0 < (1::nat) \<and> send_one_flow 1 2 2 Infty (init 3) = (Inr Infty, init 3)"
  using send_one_flow_same_vertex [of 1 2 Infty "init 3"] by simp

section \<open>The rerun guard\<close>

text \<open>C6: once \<^verbatim>\<open>edmonds_karp\<close> or \<^verbatim>\<open>dinic\<close> has returned a flow value on an
  instance, either entry point called again on that instance raises the rerun
  exception and leaves the instance, its edge list included, as it was.\<close>

theorem rerun_guard:
  assumes "edmonds_karp lim s t st = Some (Inr mf, st1) \<or> dinic lim s t st = Some (Inr mf, st1)"
  shows "edmonds_karp lim2 s2 t2 st1 = Some (Inl RerunError, st1) \<and>
         dinic lim2 s2 t2 st1 = Some (Inl RerunError, st1)"
proof -
  from assms have "has_been_run st1"
    using edmonds_karp_outcome dinic_outcome by blast
  then show ?thesis by (simp add: rerun_raises)
qed

theorem rerun_guard_witness:
  "edmonds_karp 1000 0 2 example_graph = Some (Inr (Fin 6), example_after_edmonds_karp) \<and>
   edmonds_karp 1000 0 2 example_after_edmonds_karp =
     Some (Inl RerunError, example_after_edmonds_karp) \<and>
   dinic 1000 0 2 example_after_edmonds_karp =
     Some (Inl RerunError, example_after_edmonds_karp)"
proof -
  have h: "edmonds_karp 1000 0 2 example_graph = Some (Inr (Fin 6), example_after_edmonds_karp)"
    by code_simp
  from rerun_guard [OF disjI1 [OF h], of 1000 0 2] h show ?thesis by simp
qed

section \<open>Copies\<close>

text \<open>C7, as stated: the copy of an instance that has completed a run is Ready and a
  run on it succeeds. The copy carries the run flag of its original: running
  \<^verbatim>\<open>dinic\<close> on the example, copying the instance and running \<^verbatim>\<open>edmonds_karp\<close> on
  the copy raises the rerun exception.\<close>

theorem copy_after_run_counterexample:
  "(case store_run (dinic 1000 0 2) [example_graph] 0 of
      None \<Rightarrow> None
    | Some (r, h1) \<Rightarrow>
        (case store_copy h1 0 of
           (h2, b) \<Rightarrow> map_option fst (store_run (edmonds_karp 1000 0 2) h2 b))) =
   Some (Inl RerunError)"
  by code_simp

text \<open>C7, amended: \<^verbatim>\<open>copy()\<close> gives a new instance with the contents of the
  original, its run flag included. A run entry point invoked on the copy leaves the
  original and every other instance of the store as they were, and it raises the rerun
  exception exactly when the original had already been run.\<close>

theorem copy_is_independent:
  assumes "a < length h"
    and "store_copy h a = (h1, b)"
    and "m = edmonds_karp lim s t \<or> m = dinic lim s t"
    and "store_run m h1 b = Some (r, h2)"
  shows "b \<noteq> a \<and> h1 ! b = h ! a \<and> (\<forall>c < length h. h2 ! c = h ! c) \<and>
         (r = Inl RerunError \<longleftrightarrow> has_been_run (h ! a))"
proof -
  from assms(1,2) have b: "b = length h" and h1: "h1 = h @ [h ! a]"
    by (auto simp: store_copy_def copy_def)
  from assms(4) obtain st where run: "m (h ! a) = Some (r, st)" and h2: "h2 = h1[b := st]"
    by (auto simp: store_run_def b h1 split: option.splits)
  from run assms(3) have "r = Inl RerunError \<longleftrightarrow> has_been_run (h ! a)"
    using edmonds_karp_outcome dinic_outcome by blast
  with assms(1) show ?thesis
    by (simp add: b h1 h2 nth_append)
qed

theorem copy_is_independent_witness:
  "0 < length [example_graph] \<and>
   store_copy [example_graph] 0 = ([example_graph, example_graph], 1) \<and>
   store_run (dinic 1000 0 2) [example_graph, example_graph] 1 =
     Some (Inr (Fin 6), [example_graph, example_after_dinic]) \<and>
   (1::nat) \<noteq> 0 \<and> [example_graph, example_graph] ! 1 = [example_graph] ! 0 \<and>
   [example_graph, example_after_dinic] ! 0 = [example_graph] ! 0 \<and>
   \<not> has_been_run ([example_graph] ! 0)"
proof -
  have c: "store_copy [example_graph] 0 = ([example_graph, example_graph], 1)"
    by (simp add: store_copy_def copy_def)
  have d: "dinic 1000 0 2 example_graph = Some (Inr (Fin 6), example_after_dinic)"
    by code_simp
  have r: "store_run (dinic 1000 0 2) [example_graph, example_graph] 1 =
      Some (Inr (Fin 6), [example_graph, example_after_dinic])"
    by (simp add: store_run_def d)
  from copy_is_independent [OF _ c _ r, of 1000 0 2] c r show ?thesis by simp
qed

section \<open>Invariants of a run\<close>



text \<open>C10, as stated: for every graph built by \<^verbatim>\<open>add_edge\<close> calls with non-negative
  capacities, \<open>flow \<le> capacity\<close> on every stored edge at all times. A capacity may be a
  float, and then a bottleneck that was computed with rounding is added with rounding: on
  the edges \<open>0\<rightarrow>1\<close>, \<open>1\<rightarrow>3\<close>, \<open>1\<rightarrow>2\<close>, \<open>2\<rightarrow>3\<close> with capacities \<^verbatim>\<open>0.9\<close>, \<^verbatim>\<open>0.3\<close>, \<^verbatim>\<open>5.0\<close>,
  \<^verbatim>\<open>5.0\<close>, \<^verbatim>\<open>edmonds_karp(0, 3)\<close> pushes \<^verbatim>\<open>0.3\<close> and then
  \<^verbatim>\<open>0.9 - 0.3 = 0.6000000000000001\<close> along the edge \<open>0\<rightarrow>1\<close> and leaves it with the flow
  \<^verbatim>\<open>0.9000000000000001\<close>, above its capacity \<^verbatim>\<open>0.9\<close>: the residual capacity is
  negative when the run returns.\<close>

theorem residual_capacity_nonneg_counterexample:
  "fst (build 4 float_edges_1) = Inr () \<and>
   list_all (\<lambda>(u, v, capacity, directed). 0 \<le> capacity) float_edges_1 \<and>
   (case edmonds_karp 1000 0 3 float_graph_1 of
      Some (Inr (Fin mf), st) \<Rightarrow>
        (case edge_list st ! 0 of
           (v, capacity, flow) \<Rightarrow>
             capacity = float_of_ratio 9 10 \<and>
             flow = float_of_ratio 9000000000000001 10000000000000000 \<and>
             \<not> flow \<le> capacity \<and> capacity - flow < 0)
    | _ \<Rightarrow> False)"
  by code_simp

text \<open>C10, amended: with non-negative integer capacities, the residual capacity
  \<open>capacity - flow\<close> of every stored edge, reverse edges included, is non-negative at
  every moment of a run.\<close>

theorem residual_capacity_nonneg:
  assumes "build V es = (Inr (), g)" and "valid_edges V es" and "nonneg_caps es"
    and "0 \<le> s" "s < V" and "0 \<le> t" "t < V"
    and "edmonds_karp lim s t g = Some (r, g1) \<or> dinic lim s t g = Some (r, g1)"
    and "el \<in> set (edge_list g # edge_list g1 # trace g1)"
    and "0 \<le> i" "i < int (length el)"
  shows "0 \<le> cap_of el i - flow_of el i"
proof -
  from assms(3) have "True \<longrightarrow> nonneg_caps es" by simp
  from run_safe[OF assms(1,2,4-7) this assms(8)]
  have "trace_ok True g" "trace_ok True g1"
    by (simp_all add: flow_state_def)
  with assms(9) have "cap_ok el" by (auto simp: trace_ok_def edges_ok_def)
  with assms(10,11) show ?thesis by (simp add: cap_ok_def)
qed

theorem residual_capacity_nonneg_witness:
  "build 3 [(0, 1, 3, True), (0, 2, 3, True), (1, 2, 3, True)] = (Inr (), example_graph) \<and>
   valid_edges 3 [(0, 1, 3, True), (0, 2, 3, True), (1, 2, 3, True)] \<and>
   nonneg_caps [(0, 1, 3, True), (0, 2, 3, True), (1, 2, 3, True)] \<and>
   edmonds_karp 1000 0 2 example_graph = Some (Inr (Fin 6), example_after_edmonds_karp) \<and>
   edge_list example_after_edmonds_karp
     \<in> set (edge_list example_graph # edge_list example_after_edmonds_karp #
            trace example_after_edmonds_karp) \<and>
   0 \<le> cap_of (edge_list example_after_edmonds_karp) 1 -
        flow_of (edge_list example_after_edmonds_karp) 1"
proof -
  have b: "build 3 [(0, 1, 3, True), (0, 2, 3, True), (1, 2, 3, True)] = (Inr (), example_graph)"
    by code_simp
  have v: "valid_edges 3 [(0, 1, 3, True), (0, 2, 3, True), (1, 2, 3, True)]"
    by (simp add: valid_edges_def)
  have n: "nonneg_caps [(0, 1, 3, True), (0, 2, 3, True), (1, 2, 3, True)]"
    by (simp add: nonneg_caps_def)
  have e: "edmonds_karp 1000 0 2 example_graph = Some (Inr (Fin 6), example_after_edmonds_karp)"
    by code_simp
  have m: "edge_list example_after_edmonds_karp
     \<in> set (edge_list example_graph # edge_list example_after_edmonds_karp #
            trace example_after_edmonds_karp)"
    by simp
  from residual_capacity_nonneg [OF b v n _ _ _ _ disjI1 [OF e] m, of 1] b v n e m
  show ?thesis by (simp add: example_after_edmonds_karp_def)
qed

text \<open>C5, as stated: every stored edge has \<open>0 \<le> flow\<close>. A reverse edge carries the
  negated flow of its partner: after \<^verbatim>\<open>edmonds_karp(0, 2)\<close> on the documented example the
  reverse edge at index 1 has flow \<open>-3\<close>.\<close>

theorem flow_nonneg_counterexample:
  "nonneg_caps [(0, 1, 3, True), (0, 2, 3, True), (1, 2, 3, True)] \<and>
   edmonds_karp 1000 0 2 example_graph = Some (Inr (Fin 6), example_after_edmonds_karp) \<and>
   \<not> 0 \<le> flow_of (edge_list example_after_edmonds_karp) 1"
  by code_simp

text \<open>C5, amended: with non-negative integer capacities, at every moment of a run the
  flow of every stored edge lies between the negated capacity of its partner and its own
  capacity. (With float capacities rounding can take a flow past either bound.)\<close>

theorem flow_within_capacities:
  assumes "build V es = (Inr (), g)" and "valid_edges V es" and "nonneg_caps es"
    and "0 \<le> s" "s < V" and "0 \<le> t" "t < V"
    and "edmonds_karp lim s t g = Some (r, g1) \<or> dinic lim s t g = Some (r, g1)"
    and "el \<in> set (edge_list g # edge_list g1 # trace g1)"
    and "0 \<le> i" "i < int (length el)"
  shows "- cap_of el (i XOR 1) \<le> flow_of el i \<and> flow_of el i \<le> cap_of el i"
proof -
  from assms(3) have "True \<longrightarrow> nonneg_caps es" by simp
  from run_safe[OF assms(1,2,4-7) this assms(8)]
  have ok: "trace_ok True g" "trace_ok True g1" and wf: "wf_graph g" "wf_graph g1"
    by (simp_all add: flow_state_def)
  from ok assms(9) have c: "cap_ok el" and a: "antisym el"
    by (auto simp: trace_ok_def edges_ok_def)
  from ok assms(9) have "even (length el)"
    by (auto simp: trace_ok_def edges_ok_def)
  with assms(10,11) have x: "0 \<le> i XOR 1" "i XOR 1 < int (length el)"
    using xor1_lt[of i "length el"] by simp_all
  from a assms(10,11) have "flow_of el (i XOR 1) = - flow_of el i"
    by (simp add: antisym_def)
  moreover from c x have "flow_of el (i XOR 1) \<le> cap_of el (i XOR 1)"
    by (simp add: cap_ok_def)
  moreover from c assms(10,11) have "flow_of el i \<le> cap_of el i"
    by (simp add: cap_ok_def)
  ultimately show ?thesis by simp
qed

theorem flow_within_capacities_witness:
  "build 3 [(0, 1, 3, True), (0, 2, 3, True), (1, 2, 3, True)] = (Inr (), example_graph) \<and>
   valid_edges 3 [(0, 1, 3, True), (0, 2, 3, True), (1, 2, 3, True)] \<and>
   nonneg_caps [(0, 1, 3, True), (0, 2, 3, True), (1, 2, 3, True)] \<and>
   dinic 1000 0 2 example_graph = Some (Inr (Fin 6), example_after_dinic) \<and>
   edge_list example_after_dinic
     \<in> set (edge_list example_graph # edge_list example_after_dinic #
            trace example_after_dinic) \<and>
   - cap_of (edge_list example_after_dinic) (5 XOR 1) \<le> flow_of (edge_list example_after_dinic) 5 \<and>
   flow_of (edge_list example_after_dinic) 5 \<le> cap_of (edge_list example_after_dinic) 5"
proof -
  have b: "build 3 [(0, 1, 3, True), (0, 2, 3, True), (1, 2, 3, True)] = (Inr (), example_graph)"
    by code_simp
  have v: "valid_edges 3 [(0, 1, 3, True), (0, 2, 3, True), (1, 2, 3, True)]"
    by (simp add: valid_edges_def)
  have n: "nonneg_caps [(0, 1, 3, True), (0, 2, 3, True), (1, 2, 3, True)]"
    by (simp add: nonneg_caps_def)
  have d: "dinic 1000 0 2 example_graph = Some (Inr (Fin 6), example_after_dinic)"
    by code_simp
  have m: "edge_list example_after_dinic
     \<in> set (edge_list example_graph # edge_list example_after_dinic #
            trace example_after_dinic)"
    by simp
  from flow_within_capacities [OF b v n _ _ _ _ disjI2 [OF d] m, of 5] b v n d m
  show ?thesis by (simp add: example_after_dinic_def)
qed

section \<open>Conservation\<close>

text \<open>C3, as stated: after a run on a graph built by \<^verbatim>\<open>add_edge\<close> calls, the flow
  leaving an inner vertex and the flow entering it have the same sum. A capacity may be a
  float, and then the amounts pushed are rounded: on the edges \<open>0\<rightarrow>1\<close>, \<open>1\<rightarrow>2\<close>, \<open>1\<rightarrow>2\<close>,
  \<open>0\<rightarrow>1\<close> with capacities \<^verbatim>\<open>0.3\<close>, \<^verbatim>\<open>0.1\<close>, \<^verbatim>\<open>0.7\<close>, \<^verbatim>\<open>2.2\<close>, \<^verbatim>\<open>edmonds_karp(0, 2)\<close>
  returns \<^verbatim>\<open>0.8\<close> and leaves vertex 1 with the flows \<^verbatim>\<open>0.1\<close> and \<^verbatim>\<open>0.7\<close> on the edges
  that leave it and \<^verbatim>\<open>0.3\<close> and \<^verbatim>\<open>0.5\<close> on the edges that enter it. As the numbers they
  are, the two pairs differ in sum by \<open>2 ^ -55\<close>, and so do the sums over all stored
  entries, reverse ones included; summed by Python the pairs give
  \<^verbatim>\<open>0.7999999999999999\<close> and \<^verbatim>\<open>0.8\<close>.\<close>

theorem flow_conservation_counterexample:
  "fst (build 3 float_edges_2) = Inr () \<and>
   map_option (\<lambda>(r, st). (r, out_flows st 1, in_flows st 1))
       (edmonds_karp 1000 0 2 float_graph_2) =
     Some (Inr (Fin (float_of_ratio 8 10)),
       [float_of_ratio (- 3) 10, float_of_ratio 1 10, float_of_ratio 7 10,
        float_of_ratio (- 5) 10],
       [float_of_ratio 3 10, float_of_ratio (- 1) 10, float_of_ratio (- 7) 10,
        float_of_ratio 5 10]) \<and>
   (case edmonds_karp 1000 0 2 float_graph_2 of
      Some (Inr (Fin mf), st) \<Rightarrow>
        \<not> same_value (exact_sum (out_flows st 1)) (exact_sum (in_flows st 1)) \<and>
        \<not> same_value (exact_sum (map (max 0) (out_flows st 1)))
             (exact_sum (map (max 0) (in_flows st 1))) \<and>
        float_sum (map (max 0) (out_flows st 1)) =
          float_of_ratio 7999999999999999 10000000000000000 \<and>
        float_sum (map (max 0) (in_flows st 1)) = float_of_ratio 8 10 \<and>
        float_sum (map (max 0) (out_flows st 1)) \<noteq> float_sum (map (max 0) (in_flows st 1))
    | _ \<Rightarrow> False)"
  by code_simp

text \<open>C3, amended: when \<^verbatim>\<open>edmonds_karp\<close> or \<^verbatim>\<open>dinic\<close> has returned a value on a graph
  with integer capacities, every vertex other than the source and the sink has as much
  flow leaving it as entering it, both when the stored flow values are summed as they
  are (a reverse entry counting negatively) and when only the positive ones, the flow
  actually sent along an edge, are counted.\<close>

theorem flow_conservation:
  assumes "build V es = (Inr (), g)" and "valid_edges V es"
    and "0 \<le> s" "s < V" and "0 \<le> t" "t < V"
    and "edmonds_karp lim s t g = Some (Inr mf, g1) \<or> dinic lim s t g = Some (Inr mf, g1)"
    and "0 \<le> v" "v < V" and "v \<noteq> s" "v \<noteq> t"
  shows "flow_out g1 v = flow_in g1 v \<and> sent_out g1 v = sent_in g1 v"
proof -
  have "False \<longrightarrow> nonneg_caps es" by simp
  from run_safe[OF assms(1-6) this assms(7)]
  have fs: "flow_state False s t g1" and V: "vertices g1 = V" by simp_all
  then have wf: "wf_graph g1" and a: "antisym (edge_list g1)" and c: "conserved s t g1"
    by (simp_all add: flow_state_def trace_ok_def edges_ok_def)
  from c assms(8-11) V have "flow_out g1 v = 0" by (simp add: conserved_def)
  moreover from flow_in_neg[OF wf a, of v] assms(8,9) V have "flow_in g1 v = - flow_out g1 v"
    by simp
  moreover from sent_balance[OF wf a, of v] assms(8,9) V
  have "sent_out g1 v - sent_in g1 v = flow_out g1 v"
    by simp
  ultimately show ?thesis by simp
qed

theorem flow_conservation_witness:
  "build 3 [(0, 1, 3, True), (0, 2, 3, True), (1, 2, 3, True)] = (Inr (), example_graph) \<and>
   valid_edges 3 [(0, 1, 3, True), (0, 2, 3, True), (1, 2, 3, True)] \<and>
   edmonds_karp 1000 0 2 example_graph = Some (Inr (Fin 6), example_after_edmonds_karp) \<and>
   flow_out example_after_edmonds_karp 1 = flow_in example_after_edmonds_karp 1 \<and>
   sent_out example_after_edmonds_karp 1 = sent_in example_after_edmonds_karp 1"
proof -
  have b: "build 3 [(0, 1, 3, True), (0, 2, 3, True), (1, 2, 3, True)] = (Inr (), example_graph)"
    by code_simp
  have v: "valid_edges 3 [(0, 1, 3, True), (0, 2, 3, True), (1, 2, 3, True)]"
    by (simp add: valid_edges_def)
  have e: "edmonds_karp 1000 0 2 example_graph = Some (Inr (Fin 6), example_after_edmonds_karp)"
    by code_simp
  from flow_conservation [OF b v _ _ _ _ disjI1 [OF e], of 1] b v e
  show ?thesis by simp
qed

section \<open>The two strategies compared\<close>

text \<open>C1, as stated: for every graph built by \<^verbatim>\<open>add_edge\<close> calls and every source and
  sink, the two strategies return the same value. Three runs show what the statement
  leaves out. With source equal to sink neither entry point ever returns: every round
  sends \<^verbatim>\<open>INF\<close>, which is not zero. With three call frames left for the recursion, on
  the graph with edges \<open>0\<rightarrow>1\<close>, \<open>1\<rightarrow>2\<close>, \<open>1\<rightarrow>3\<close>, \<open>2\<rightarrow>4\<close> of capacity 1, source 0 and sink 3,
  \<^verbatim>\<open>edmonds_karp\<close> returns 1 while \<^verbatim>\<open>dinic\<close>, whose search descends through 1, 2 and 4
  before it turns to 3, raises \<^verbatim>\<open>RecursionError\<close>. With the negative capacity \<open>-5\<close> on
  the edge \<open>1\<rightarrow>2\<close> of the graph \<open>0\<rightarrow>1\<close>, \<open>1\<rightarrow>2\<close>, \<open>0\<rightarrow>3\<close>, \<open>3\<rightarrow>2\<close>, \<^verbatim>\<open>edmonds_karp(0, 2)\<close>
  returns 1 and \<^verbatim>\<open>dinic(0, 2)\<close> returns \<open>-4\<close>.\<close>

theorem strategies_agree_counterexample:
  "edmonds_karp 1000 0 0 example_graph = None \<and>
   dinic 1000 0 0 example_graph = None \<and>
   map_option fst (edmonds_karp 3 0 3
     (snd (build 5 [(0, 1, 1, True), (1, 2, 1, True), (1, 3, 1, True), (2, 4, 1, True)]) :: int MaximumFlow))
     = Some (Inr (Fin 1)) \<and>
   map_option fst (dinic 3 0 3
     (snd (build 5 [(0, 1, 1, True), (1, 2, 1, True), (1, 3, 1, True), (2, 4, 1, True)]) :: int MaximumFlow))
     = Some (Inl RecursionError) \<and>
   map_option fst (edmonds_karp 10 0 2
     (snd (build 4 [(0, 1, 1, True), (1, 2, - 5, True), (0, 3, 1, True), (3, 2, 1, True)]) :: int MaximumFlow))
     = Some (Inr (Fin 1)) \<and>
   map_option fst (dinic 10 0 2
     (snd (build 4 [(0, 1, 1, True), (1, 2, - 5, True), (0, 3, 1, True), (3, 2, 1, True)]) :: int MaximumFlow))
     = Some (Inr (Fin (- 4)))"
proof -
  have b: "build 3 [(0, 1, 3, True), (0, 2, 3, True), (1, 2, 3, True)] = (Inr (), example_graph)"
    by code_simp
  have v: "valid_edges 3 [(0, 1, 3, True), (0, 2, 3, True), (1, 2, 3, True)]"
    by (simp add: valid_edges_def)
  from build_wf[OF _ v b] have "wf_graph example_graph" "vertices example_graph = 3"
    "\<not> has_been_run example_graph"
    by (simp_all add: fresh_def)
  then have same: "edmonds_karp 1000 0 0 example_graph = None \<and>
      dinic 1000 0 0 example_graph = None"
    by (intro same_vertex_diverges) simp_all
  have deep: "map_option fst (edmonds_karp 3 0 3
       (snd (build 5 [(0, 1, 1, True), (1, 2, 1, True), (1, 3, 1, True), (2, 4, 1, True)]) :: int MaximumFlow))
       = Some (Inr (Fin 1))"
    "map_option fst (dinic 3 0 3
       (snd (build 5 [(0, 1, 1, True), (1, 2, 1, True), (1, 3, 1, True), (2, 4, 1, True)]) :: int MaximumFlow))
       = Some (Inl RecursionError)"
    by code_simp+
  have neg: "map_option fst (edmonds_karp 10 0 2
       (snd (build 4 [(0, 1, 1, True), (1, 2, - 5, True), (0, 3, 1, True), (3, 2, 1, True)]) :: int MaximumFlow))
       = Some (Inr (Fin 1))"
    "map_option fst (dinic 10 0 2
       (snd (build 4 [(0, 1, 1, True), (1, 2, - 5, True), (0, 3, 1, True), (3, 2, 1, True)]) :: int MaximumFlow))
       = Some (Inr (Fin (- 4)))"
    by code_simp+
  from same deep neg show ?thesis by (intro conjI) simp_all
qed

text \<open>C1, amended: take a graph built by \<^verbatim>\<open>add_edge\<close> calls on vertices of \<open>[0, V)\<close> with
  non-negative integer capacities, a source and a sink in \<open>[0, V)\<close> that differ, and a
  recursion limit that leaves a call frame for every vertex. Put the graph in a store,
  take two copies of it, run \<^verbatim>\<open>edmonds_karp(s, t)\<close> on the first copy and then
  \<^verbatim>\<open>dinic(s, t)\<close> on the second: both runs return, with the same finite value, and the
  original is as it was.\<close>

theorem strategies_agree:
  assumes "build V es = (Inr (), g)" and "valid_edges V es" and "nonneg_caps es"
    and "0 \<le> s" "s < V" and "0 \<le> t" "t < V" and "s \<noteq> t" and "V \<le> int lim"
    and "store_copy [g] 0 = (h1, a)" and "store_copy h1 0 = (h2, b)"
  shows "\<exists>mf h3 h4. store_run (edmonds_karp lim s t) h2 a = Some (Inr (Fin mf), h3) \<and>
      store_run (dinic lim s t) h3 b = Some (Inr (Fin mf), h4) \<and> h4 ! 0 = g"
proof -
  from run_total[OF assms(1-9)] obtain m g1 g2 where
    E: "edmonds_karp lim s t g = Some (Inr (Fin m), g1)"
    and D: "dinic lim s t g = Some (Inr (Fin m), g2)"
    by blast
  from assms(10) have h1: "h1 = [g, g]" "a = 1" by (simp_all add: store_copy_def copy_def)
  with assms(11) have h2: "h2 = [g, g, g]" "b = 2" by (simp_all add: store_copy_def copy_def)
  have "store_run (edmonds_karp lim s t) h2 a = Some (Inr (Fin m), [g, g1, g])"
    using E by (simp add: store_run_def h1 h2)
  moreover have "store_run (dinic lim s t) [g, g1, g] b = Some (Inr (Fin m), [g, g1, g2])"
    using D by (simp add: store_run_def h2)
  ultimately show ?thesis by simp
qed

theorem strategies_agree_witness:
  "build 3 [(0, 1, 3, True), (0, 2, 3, True), (1, 2, 3, True)] = (Inr (), example_graph) \<and>
   valid_edges 3 [(0, 1, 3, True), (0, 2, 3, True), (1, 2, 3, True)] \<and>
   nonneg_caps [(0, 1, 3, True), (0, 2, 3, True), (1, 2, 3, True)] \<and>
   store_copy [example_graph] 0 = ([example_graph, example_graph], 1) \<and>
   store_copy [example_graph, example_graph] 0 =
     ([example_graph, example_graph, example_graph], 2) \<and>
   (\<exists>mf h3 h4.
      store_run (edmonds_karp 1000 0 2) [example_graph, example_graph, example_graph] 1 =
        Some (Inr (Fin mf), h3) \<and>
      store_run (dinic 1000 0 2) h3 2 = Some (Inr (Fin mf), h4) \<and> h4 ! 0 = example_graph)"
proof -
  have b: "build 3 [(0, 1, 3, True), (0, 2, 3, True), (1, 2, 3, True)] = (Inr (), example_graph)"
    by code_simp
  have v: "valid_edges 3 [(0, 1, 3, True), (0, 2, 3, True), (1, 2, 3, True)]"
    by (simp add: valid_edges_def)
  have n: "nonneg_caps [(0, 1, 3, True), (0, 2, 3, True), (1, 2, 3, True)]"
    by (simp add: nonneg_caps_def)
  have c1: "store_copy [example_graph] 0 = ([example_graph, example_graph], 1)"
    by (simp add: store_copy_def copy_def)
  have c2: "store_copy [example_graph, example_graph] 0 =
      ([example_graph, example_graph, example_graph], 2)"
    by (simp add: store_copy_def copy_def)
  from strategies_agree [OF b v n _ _ _ _ _ _ c1 c2, of 0 2 1000] b v n c1 c2
  show ?thesis by simp
qed

end
